theory Spec2Isabelle
  imports Main
begin

chapter \<open>The circuit data structure, embedded\<close>

section \<open>Data model\<close>

text \<open>
  Modelled from the spec: qubits, classical keys and operations are declared outside the
  sources. Qubits (the spec's resources) and classical keys are opaque, totally ordered
  identities. An operation is known to the circuit only through its qubit tuple and its
  classical footprint: \<open>control_keys\<close> are the keys it reads, \<open>measurement_keys\<close>
  the keys it writes. The field \<open>gate\<close> stands for everything else that tells two
  operations apart.
\<close>

type_synonym qid = nat
type_synonym mkey = nat

record operation =
  gate :: nat
  qubits :: "qid list"
  control_keys :: "mkey list"
  measurement_keys :: "mkey list"

text \<open>The exceptions of the source, as values.\<close>

datatype error =
  ValueError | IndexError | KeyError | TypeError | AssertionError | NotImplementedError | DeviceError

text \<open>
  Modelled from the spec: \<open>InsertStrategy\<close> is declared outside the sources; the circuit
  code names its members NEW, NEW_THEN_INLINE, INLINE and EARLIEST and raises ValueError
  for any other value, which \<open>UNRECOGNIZED\<close> stands for. \<open>Alignment\<close> is the enum of
  the source.
\<close>

datatype insert_strategy = NEW | NEW_THEN_INLINE | INLINE | EARLIEST | UNRECOGNIZED

datatype alignment = LEFT | RIGHT | FIRST

subsection \<open>Moment\<close>

text \<open>
  Modelled from the spec: the class \<open>Moment\<close> (the spec's TimeSlot) is imported by
  \<open>circuit.py\<close> but its file is not part of the sources. A moment holds operations with
  pairwise disjoint qubits (invariant I1); construction validates I1 and fails otherwise.
  The operations are kept in construction order, as the tuple \<open>moment.operations\<close> that
  the circuit code iterates over.
\<close>

type_synonym moment = "operation list"

definition operates_on :: "moment \<Rightarrow> qid list \<Rightarrow> bool" where
  "operates_on m qs = (\<exists>op \<in> set m. \<exists>q \<in> set (qubits op). q \<in> set qs)"

fun disjoint_operations :: "operation list \<Rightarrow> bool" where
  "disjoint_operations [] = True"
| "disjoint_operations (op # ops) =
     (\<not> operates_on ops (qubits op) \<and> disjoint_operations ops)"

definition Moment :: "operation list \<Rightarrow> error + moment" where
  "Moment ops = (if disjoint_operations ops then Inr ops else Inl ValueError)"

definition moment_operation_at :: "moment \<Rightarrow> qid \<Rightarrow> operation option" where
  "moment_operation_at m q = find (\<lambda>op. q \<in> set (qubits op)) m"

definition with_operation :: "moment \<Rightarrow> operation \<Rightarrow> error + moment" where
  "with_operation m op =
     (if operates_on m (qubits op) then Inl ValueError else Inr (m @ [op]))"

definition moment_add :: "moment \<Rightarrow> moment \<Rightarrow> error + moment" where
  "moment_add m other =
     (if operates_on m (concat (map qubits other)) then Inl ValueError
      else Moment (m @ other))"

definition moment_measurement_keys :: "moment \<Rightarrow> mkey list" where
  "moment_measurement_keys m = concat (map measurement_keys m)"

definition moment_control_keys :: "moment \<Rightarrow> mkey list" where
  "moment_control_keys m = concat (map control_keys m)"

definition isdisjoint :: "'a list \<Rightarrow> 'a list \<Rightarrow> bool" where
  "isdisjoint xs ys = (\<forall>x \<in> set xs. x \<notin> set ys)"

subsection \<open>Operation trees\<close>

text \<open>
  Modelled from the spec: an \<open>OP_TREE\<close> is an operation, a moment, or an iterable of
  trees; \<open>flatten_to_ops_or_moments\<close> and \<open>flatten_to_ops\<close> live in the \<open>ops\<close>
  package, outside the sources. Insertion flattens its input to a sequence of moments and
  operations, keeping embedded moments intact; \<open>flatten_to_ops\<close> iterates into moments
  as well.
\<close>

datatype moment_or_op = Op operation | Mom moment

datatype op_tree = Leaf moment_or_op | Tree "op_tree list"

fun flatten_to_ops_or_moments :: "op_tree \<Rightarrow> moment_or_op list" where
  "flatten_to_ops_or_moments (Leaf x) = [x]"
| "flatten_to_ops_or_moments (Tree ts) = concat (map flatten_to_ops_or_moments ts)"

fun item_ops :: "moment_or_op \<Rightarrow> operation list" where
  "item_ops (Op op) = [op]"
| "item_ops (Mom m) = m"

definition flatten_to_ops :: "op_tree \<Rightarrow> operation list" where
  "flatten_to_ops t = concat (map item_ops (flatten_to_ops_or_moments t))"

subsection \<open>Device\<close>

text \<open>
  Modelled from the spec: the device class is outside the sources. A circuit carries
  either the sentinel \<open>UNCONSTRAINED_DEVICE\<close> (here \<open>None\<close>), under which placement only
  checks disjointness and nothing is validated or decomposed, or a device with an
  acceptance predicate, validators (a validator that answers \<open>False\<close> raises) and a
  decomposition of operations into trees.
\<close>

record device =
  validate_operation :: "operation \<Rightarrow> bool"
  validate_moment :: "moment \<Rightarrow> bool"
  validate_circuit :: "moment list \<Rightarrow> bool"
  can_add_operation_into_moment :: "operation \<Rightarrow> moment \<Rightarrow> bool"
  decompose_operation :: "operation \<Rightarrow> op_tree"

definition dev_validate_operation :: "device option \<Rightarrow> operation \<Rightarrow> bool" where
  "dev_validate_operation dev op =
     (case dev of None \<Rightarrow> True | Some d \<Rightarrow> validate_operation d op)"

definition dev_validate_moment :: "device option \<Rightarrow> moment \<Rightarrow> bool" where
  "dev_validate_moment dev m =
     (case dev of None \<Rightarrow> True | Some d \<Rightarrow> validate_moment d m)"

definition dev_validate_circuit :: "device option \<Rightarrow> moment list \<Rightarrow> bool" where
  "dev_validate_circuit dev ms =
     (case dev of None \<Rightarrow> True | Some d \<Rightarrow> validate_circuit d ms)"

fun transform_op_tree :: "device option \<Rightarrow> op_tree \<Rightarrow> op_tree" where
  "transform_op_tree dev (Leaf (Op op)) =
     (case dev of None \<Rightarrow> Leaf (Op op) | Some d \<Rightarrow> decompose_operation d op)"
| "transform_op_tree dev (Leaf (Mom m)) = Leaf (Mom m)"
| "transform_op_tree dev (Tree ts) = Tree (map (transform_op_tree dev) ts)"

subsection \<open>Python lists and ranges\<close>

text \<open>
  \<open>subscript xs i\<close> resolves the index of \<open>xs[i]\<close>: a negative index counts from the
  end, and an index outside \<open>[-len, len)\<close> raises IndexError. \<open>list_insert\<close> is
  \<open>list.insert\<close>, which clamps instead of raising. \<open>py_range a b\<close> is \<open>range(a, b)\<close>.
\<close>

definition subscript :: "'a list \<Rightarrow> int \<Rightarrow> error + nat" where
  "subscript xs i =
     (if 0 \<le> i \<and> i < int (length xs) then Inr (nat i)
      else if i < 0 \<and> - int (length xs) \<le> i then Inr (nat (int (length xs) + i))
      else Inl IndexError)"

definition list_insert :: "'a list \<Rightarrow> int \<Rightarrow> 'a \<Rightarrow> 'a list" where
  "list_insert xs i x =
     (let n = int (length xs);
          j = (if i < 0 then max (n + i) 0 else min i n)
      in take (nat j) xs @ x # drop (nat j) xs)"

definition slice_from :: "'a list \<Rightarrow> int \<Rightarrow> 'a list" where
  "slice_from xs i =
     (let n = int (length xs);
          j = (if i < 0 then max (n + i) 0 else min i n)
      in drop (nat j) xs)"

definition py_range :: "int \<Rightarrow> int \<Rightarrow> int list" where
  "py_range a b = [a..b - 1]"

section \<open>Queries\<close>

definition has_op_at :: "moment list \<Rightarrow> int \<Rightarrow> qid list \<Rightarrow> bool" where
  "has_op_at ms moment_index qs =
     (0 \<le> moment_index \<and> moment_index < int (length ms)
      \<and> operates_on (ms ! nat moment_index) qs)"

fun first_moment_operating_on :: "moment list \<Rightarrow> qid list \<Rightarrow> int list \<Rightarrow> int option" where
  "first_moment_operating_on ms qs [] = None"
| "first_moment_operating_on ms qs (m # indices) =
     (if has_op_at ms m qs then Some m else first_moment_operating_on ms qs indices)"

definition next_moment_operating_on ::
  "moment list \<Rightarrow> qid list \<Rightarrow> int \<Rightarrow> int option \<Rightarrow> error + int option" where
  "next_moment_operating_on ms qs start_moment_index max_distance =
     (let max_circuit_distance = int (length ms) - start_moment_index in
      case max_distance of
        None \<Rightarrow>
          Inr (first_moment_operating_on ms qs
                 (py_range start_moment_index (start_moment_index + max_circuit_distance)))
      | Some d \<Rightarrow>
          if d < 0 then Inl ValueError
          else Inr (first_moment_operating_on ms qs
                 (py_range start_moment_index
                    (start_moment_index + min d max_circuit_distance))))"

definition prev_moment_operating_on ::
  "moment list \<Rightarrow> qid list \<Rightarrow> int option \<Rightarrow> int option \<Rightarrow> error + int option" where
  "prev_moment_operating_on ms qs end_moment_index max_distance =
     (let end0 = (case end_moment_index of None \<Rightarrow> int (length ms) | Some e \<Rightarrow> e) in
      case (case max_distance of
              None \<Rightarrow> Inr (int (length ms))
            | Some d \<Rightarrow> if d < 0 then Inl ValueError else Inr (min end0 d)) of
        Inl e \<Rightarrow> Inl e
      | Inr md0 \<Rightarrow>
          let d = end0 - int (length ms);
              end1 = (if end0 > int (length ms) then end0 - d else end0);
              md1 = (if end0 > int (length ms) then md0 - d else md0)
          in if md1 \<le> 0 then Inr None
             else Inr (first_moment_operating_on ms qs
                         (map (\<lambda>k. end1 - k - 1) (py_range 0 md1))))"

definition operation_at :: "moment list \<Rightarrow> qid \<Rightarrow> int \<Rightarrow> operation option" where
  "operation_at ms qubit moment_index =
     (if \<not> (0 \<le> moment_index \<and> moment_index < int (length ms)) then None
      else moment_operation_at (ms ! nat moment_index) qubit)"

section \<open>Insertion\<close>

definition can_add_op_at :: "device option \<Rightarrow> moment list \<Rightarrow> int \<Rightarrow> operation \<Rightarrow> bool" where
  "can_add_op_at dev ms moment_index operation =
     (if \<not> (0 \<le> moment_index \<and> moment_index < int (length ms)) then True
      else case dev of
             None \<Rightarrow> \<not> operates_on (ms ! nat moment_index) (qubits operation)
           | Some d \<Rightarrow> can_add_operation_into_moment d operation (ms ! nat moment_index))"

text \<open>
  The loop of \<open>_prev_moment_available\<close>: \<open>k\<close> counts down from \<open>end_moment_index\<close>, the
  read \<open>self._moments[k]\<close> raises IndexError past the end of the list.
\<close>

function prev_moment_available_loop ::
  "device option \<Rightarrow> moment list \<Rightarrow> operation \<Rightarrow> int \<Rightarrow> int \<Rightarrow> error + int" where
  "prev_moment_available_loop dev ms op k last_available =
     (if k > 0 then
        (case subscript ms (k - 1) of
           Inl e \<Rightarrow> Inl e
         | Inr j \<Rightarrow>
             if operates_on (ms ! j) (qubits op)
                \<or> \<not> isdisjoint (control_keys op) (moment_measurement_keys (ms ! j))
                \<or> \<not> isdisjoint (moment_control_keys (ms ! j)) (measurement_keys op)
             then Inr last_available
             else prev_moment_available_loop dev ms op (k - 1)
                    (if can_add_op_at dev ms (k - 1) op then k - 1 else last_available))
      else Inr last_available)"
  by pat_completeness auto
termination
  by (relation "measure (\<lambda>(dev, ms, op, k, last_available). nat k)") auto

declare prev_moment_available_loop.simps [simp del]

definition prev_moment_available ::
  "device option \<Rightarrow> moment list \<Rightarrow> operation \<Rightarrow> int \<Rightarrow> error + int" where
  "prev_moment_available dev ms op end_moment_index =
     prev_moment_available_loop dev ms op end_moment_index end_moment_index"

text \<open>
  \<open>_pick_or_create_inserted_op_moment_index\<close>, one definition for each strategy the
  source falls through: EARLIEST falls back to INLINE, INLINE to NEW. The result is the
  chosen index and the list of moments, to which NEW has added an empty moment. The
  source returns \<open>p or 0\<close> for EARLIEST, which is \<open>p\<close> for every integer \<open>p\<close>.
\<close>

definition pick_NEW :: "moment list \<Rightarrow> int \<Rightarrow> (error + int) \<times> moment list" where
  "pick_NEW ms splitter_index = (Inr splitter_index, list_insert ms splitter_index [])"

definition pick_INLINE ::
  "device option \<Rightarrow> moment list \<Rightarrow> int \<Rightarrow> operation \<Rightarrow> (error + int) \<times> moment list" where
  "pick_INLINE dev ms splitter_index op =
     (if 0 \<le> splitter_index - 1 \<and> splitter_index - 1 < int (length ms)
         \<and> can_add_op_at dev ms (splitter_index - 1) op
      then (Inr (splitter_index - 1), ms)
      else pick_NEW ms splitter_index)"

definition pick_EARLIEST ::
  "device option \<Rightarrow> moment list \<Rightarrow> int \<Rightarrow> operation \<Rightarrow> (error + int) \<times> moment list" where
  "pick_EARLIEST dev ms splitter_index op =
     (if can_add_op_at dev ms splitter_index op
      then (case prev_moment_available dev ms op splitter_index of
              Inl e \<Rightarrow> (Inl e, ms)
            | Inr p \<Rightarrow> (Inr p, ms))
      else pick_INLINE dev ms splitter_index op)"

definition pick_or_create_inserted_op_moment_index ::
  "device option \<Rightarrow> moment list \<Rightarrow> int \<Rightarrow> operation \<Rightarrow> insert_strategy
     \<Rightarrow> (error + int) \<times> moment list" where
  "pick_or_create_inserted_op_moment_index dev ms splitter_index op strategy =
     (case strategy of
        NEW \<Rightarrow> pick_NEW ms splitter_index
      | NEW_THEN_INLINE \<Rightarrow> pick_NEW ms splitter_index
      | INLINE \<Rightarrow> pick_INLINE dev ms splitter_index op
      | EARLIEST \<Rightarrow> pick_EARLIEST dev ms splitter_index op
      | UNRECOGNIZED \<Rightarrow> (Inl ValueError, ms))"

text \<open>
  The second loop of \<open>insert\<close>, over the flattened items, with the cursor \<open>k\<close>. The state
  is the content of the list object \<open>self._moments\<close>, which the source only mutates in
  place; when an exception leaves the loop, the list is returned as it then is.
\<close>

fun insert_loop ::
  "device option \<Rightarrow> moment_or_op list \<Rightarrow> insert_strategy \<Rightarrow> int \<Rightarrow> moment list
     \<Rightarrow> (error + int) \<times> moment list" where
  "insert_loop dev [] strategy k ms = (Inr k, ms)"
| "insert_loop dev (Mom m # rest) strategy k ms =
     insert_loop dev rest strategy (k + 1) (list_insert ms k m)"
| "insert_loop dev (Op op # rest) strategy k ms =
     (case pick_or_create_inserted_op_moment_index dev ms k op strategy of
        (Inl e, ms1) \<Rightarrow> (Inl e, ms1)
      | (Inr p, ms1) \<Rightarrow>
          (let ms2 = ms1 @ replicate (nat (p + 1 - int (length ms1))) [] in
           case subscript ms2 p of
             Inl e \<Rightarrow> (Inl e, ms2)
           | Inr j \<Rightarrow>
               (case with_operation (ms2 ! j) op of
                  Inl e \<Rightarrow> (Inl e, ms2)
                | Inr m \<Rightarrow>
                    if \<not> dev_validate_moment dev m then (Inl DeviceError, ms2[j := m])
                    else insert_loop dev rest
                           (if strategy = NEW_THEN_INLINE then INLINE else strategy)
                           (max k (p + 1)) (ms2[j := m]))))"

fun validate_item :: "device option \<Rightarrow> moment_or_op \<Rightarrow> bool" where
  "validate_item dev (Mom m) = dev_validate_moment dev m"
| "validate_item dev (Op op) = dev_validate_operation dev op"

text \<open>
  The cursor at which \<open>insert\<close> starts: the source's
  \<open>max(min(index if index >= 0 else len(self._moments) + index, len(self._moments)), 0)\<close>.
\<close>

definition insertion_cursor :: "moment list \<Rightarrow> int \<Rightarrow> int" where
  "insertion_cursor ms index =
     max (min (if index \<ge> 0 then index else int (length ms) + index) (int (length ms))) 0"

definition insert_circuit ::
  "device option \<Rightarrow> moment list \<Rightarrow> int \<Rightarrow> op_tree \<Rightarrow> insert_strategy
     \<Rightarrow> (error + int) \<times> moment list" where
  "insert_circuit dev ms index moment_or_operation_tree strategy =
     (let moments_and_operations =
            flatten_to_ops_or_moments (transform_op_tree dev moment_or_operation_tree)
      in if \<not> list_all (validate_item dev) moments_and_operations then (Inl DeviceError, ms)
         else insert_loop dev moments_and_operations strategy (insertion_cursor ms index) ms)"

definition append_circuit ::
  "device option \<Rightarrow> moment list \<Rightarrow> op_tree \<Rightarrow> insert_strategy \<Rightarrow> (error + int) \<times> moment list" where
  "append_circuit dev ms moment_or_operation_tree strategy =
     insert_circuit dev ms (int (length ms)) moment_or_operation_tree strategy"

subsection \<open>Inserting into a range\<close>

definition cannot_add :: "device option \<Rightarrow> operation \<Rightarrow> moment \<Rightarrow> bool" where
  "cannot_add dev a b =
     (case dev of
        None \<Rightarrow> operates_on b (qubits a)
      | Some d \<Rightarrow> \<not> can_add_operation_into_moment d a b)"

text \<open>
  The inner \<open>while\<close> of \<open>insert_into_range\<close>; the cursor stays inside
  \<open>[start, end)\<close>, which the guard of the method places inside the list.
\<close>

function advance_cursor ::
  "device option \<Rightarrow> moment list \<Rightarrow> operation \<Rightarrow> int \<Rightarrow> int \<Rightarrow> int" where
  "advance_cursor dev ms op i end_index =
     (if i < end_index \<and> cannot_add dev op (ms ! nat i)
      then advance_cursor dev ms op (i + 1) end_index
      else i)"
  by pat_completeness auto
termination
  by (relation "measure (\<lambda>(dev, ms, op, i, end_index). nat (end_index - i))") auto

declare advance_cursor.simps [simp del]

function insert_into_range_loop ::
  "device option \<Rightarrow> operation list \<Rightarrow> int \<Rightarrow> int \<Rightarrow> moment list
     \<Rightarrow> (error + int) \<times> moment list" where
  "insert_into_range_loop dev [] i end_index ms = (Inr end_index, ms)"
| "insert_into_range_loop dev (op # rest) i end_index ms =
     (let i1 = advance_cursor dev ms op i end_index in
      if i1 \<ge> end_index
      then insert_circuit dev ms end_index (Tree (map (\<lambda>x. Leaf (Op x)) (op # rest))) EARLIEST
      else case with_operation (ms ! nat i1) op of
             Inl e \<Rightarrow> (Inl e, ms)
           | Inr m \<Rightarrow> insert_into_range_loop dev rest i1 end_index (ms[nat i1 := m]))"
  by pat_completeness auto
termination
  by (relation "measure (\<lambda>(dev, ops, i, end_index, ms). length ops)") auto

definition insert_into_range ::
  "device option \<Rightarrow> moment list \<Rightarrow> op_tree \<Rightarrow> int \<Rightarrow> int \<Rightarrow> (error + int) \<times> moment list" where
  "insert_into_range dev ms operations start end_index =
     (if \<not> (0 \<le> start \<and> start \<le> end_index \<and> end_index \<le> int (length ms))
      then (Inl IndexError, ms)
      else
        let flat_ops = flatten_to_ops operations in
        if \<not> list_all (dev_validate_operation dev) flat_ops then (Inl DeviceError, ms)
        else insert_into_range_loop dev flat_ops start end_index ms)"

section \<open>Scenarios and specification vocabulary\<close>

text \<open>
  Scenario A of the spec: two qubits and three moments, the first with an operation on
  qubit 0, the second empty, the third with one operation on qubits 0 and 1.
\<close>

definition scenario_A :: "moment list" where
  "scenario_A =
     [[\<lparr>gate = 0, qubits = [0], control_keys = [], measurement_keys = []\<rparr>],
      [],
      [\<lparr>gate = 1, qubits = [0, 1], control_keys = [], measurement_keys = []\<rparr>]]"

text \<open>
  The exclusive upper end of the window that \<open>next_moment_operating_on\<close> is specified
  to search: \<open>start + max_distance\<close>, clamped to the number of moments.
\<close>

definition window_end :: "moment list \<Rightarrow> int \<Rightarrow> int option \<Rightarrow> int" where
  "window_end ms start max_distance =
     (case max_distance of None \<Rightarrow> int (length ms)
      | Some d \<Rightarrow> min (start + d) (int (length ms)))"

text \<open>
  What the loop of \<open>insert\<close> relies on after picking a moment index at cursor \<open>k\<close>: no
  IndexError, a list that did not shrink, and an index between 0 and \<open>k\<close> that is inside
  the list or equal to \<open>k\<close>.
\<close>

definition pick_ok :: "moment list \<Rightarrow> int \<Rightarrow> (error + int) \<times> moment list \<Rightarrow> bool" where
  "pick_ok ms k res =
     (fst res \<noteq> Inl IndexError \<and> length ms \<le> length (snd res) \<and>
      (\<forall>p. fst res = Inr p \<longrightarrow> 0 \<le> p \<and> p \<le> k \<and> (p < int (length (snd res)) \<or> p = k)))"

text \<open>
  The condition under which the backward scan of \<open>_prev_moment_available\<close> stops at a
  moment: the moment operates on a qubit of the operation, or a classical key written on
  one side is read on the other.
\<close>

definition blocked_by :: "operation \<Rightarrow> moment \<Rightarrow> bool" where
  "blocked_by op m =
     (operates_on m (qubits op)
      \<or> \<not> isdisjoint (control_keys op) (moment_measurement_keys m)
      \<or> \<not> isdisjoint (moment_control_keys m) (measurement_keys op))"

section \<open>Finding operations until blocked\<close>

text \<open>
  A frontier is a Python dict from qubits to moment indices; it is kept as an association
  list with distinct keys, in the order in which the dict is iterated. \<open>py_min\<close> is
  \<open>min\<close> of a sequence, which raises ValueError on the empty sequence.
\<close>

type_synonym frontier = "(qid \<times> int) list"

definition py_min :: "int list \<Rightarrow> error + int" where
  "py_min xs = (case xs of [] \<Rightarrow> Inl ValueError | x # rest \<Rightarrow> Inr (fold min rest x))"

fun scan_moment ::
  "(operation \<Rightarrow> bool) \<Rightarrow> qid list \<Rightarrow> int \<Rightarrow> operation list \<Rightarrow> qid list
     \<Rightarrow> (int \<times> operation) list \<Rightarrow> qid list \<times> (int \<times> operation) list" where
  "scan_moment is_blocker active_qubits index [] blocked_qubits op_list =
     (blocked_qubits, op_list)"
| "scan_moment is_blocker active_qubits index (op # ops) blocked_qubits op_list =
     (if is_blocker op \<or> (\<exists>q \<in> set (qubits op). q \<in> set blocked_qubits)
      then scan_moment is_blocker active_qubits index ops (blocked_qubits @ qubits op) op_list
      else if (\<exists>q \<in> set (qubits op). q \<in> set active_qubits)
      then scan_moment is_blocker active_qubits index ops blocked_qubits
             (op_list @ [(index, op)])
      else scan_moment is_blocker active_qubits index ops blocked_qubits op_list)"

fun until_blocked_loop ::
  "(operation \<Rightarrow> bool) \<Rightarrow> frontier \<Rightarrow> int \<Rightarrow> moment list \<Rightarrow> qid list
     \<Rightarrow> (int \<times> operation) list \<Rightarrow> (int \<times> operation) list" where
  "until_blocked_loop is_blocker start_frontier index [] blocked_qubits op_list = op_list"
| "until_blocked_loop is_blocker start_frontier index (moment # rest) blocked_qubits op_list =
     (let active_qubits = map fst (filter (\<lambda>(q, s). s \<le> index) start_frontier);
          scanned = scan_moment is_blocker active_qubits index moment blocked_qubits op_list
      in if (\<forall>q \<in> set (map fst start_frontier). q \<in> set (fst scanned)) then snd scanned
         else until_blocked_loop is_blocker start_frontier (index + 1) rest
                (fst scanned) (snd scanned))"

definition findall_operations_until_blocked ::
  "moment list \<Rightarrow> frontier \<Rightarrow> (operation \<Rightarrow> bool) \<Rightarrow> error + (int \<times> operation) list" where
  "findall_operations_until_blocked ms start_frontier is_blocker =
     (if start_frontier = [] then Inr []
      else case py_min (map snd start_frontier) of
             Inl e \<Rightarrow> Inl e
           | Inr start_index \<Rightarrow>
               Inr (until_blocked_loop is_blocker start_frontier start_index
                      (slice_from ms start_index) [] []))"

section \<open>Zipping circuits\<close>

text \<open>
  \<open>zip\<close> of the source. A circuit argument is its list of moments; the result is built
  by appending to a fresh circuit without device. \<open>py_max_default\<close> is
  \<open>max(xs, default=d)\<close>. The constructor \<open>Moment\<close> is given the moments of one column and
  validates the union of their operations; the \<open>except\<close> clause turns its ValueError
  into a ValueError.
\<close>

definition py_max_default :: "int list \<Rightarrow> int \<Rightarrow> int" where
  "py_max_default xs d = (case xs of [] \<Rightarrow> d | x # rest \<Rightarrow> fold max rest x)"

definition zip_column :: "moment list list \<Rightarrow> alignment \<Rightarrow> int \<Rightarrow> int \<Rightarrow> moment list" where
  "zip_column circuits align n k =
     (if align = LEFT
      then map (\<lambda>c. c ! nat k) (filter (\<lambda>c. k < int (length c)) circuits)
      else map (\<lambda>c. c ! nat (int (length c) - n + k))
             (filter (\<lambda>c. int (length c) - n + k \<ge> 0) circuits))"

fun zip_loop ::
  "moment list list \<Rightarrow> alignment \<Rightarrow> int \<Rightarrow> int list \<Rightarrow> moment list \<Rightarrow> error + moment list" where
  "zip_loop circuits align n [] result = Inr result"
| "zip_loop circuits align n (k # ks) result =
     (case Moment (concat (zip_column circuits align n k)) of
        Inl e \<Rightarrow> Inl ValueError
      | Inr moment \<Rightarrow>
          (case append_circuit None result (Leaf (Mom moment)) EARLIEST of
             (Inl e, result1) \<Rightarrow> Inl e
           | (Inr next_index, result1) \<Rightarrow> zip_loop circuits align n ks result1))"

definition zip_circuits :: "moment list list \<Rightarrow> alignment \<Rightarrow> error + moment list" where
  "zip_circuits circuits align =
     (let n = py_max_default (map (\<lambda>c. int (length c)) circuits) 0
      in zip_loop circuits align n (py_range 0 n) [])"

text \<open>A circuit with a single moment that holds one operation on qubit 2.\<close>

definition single_q2 :: "moment list" where
  "single_q2 = [[\<lparr>gate = 0, qubits = [2], control_keys = [], measurement_keys = []\<rparr>]]"

section \<open>Tetris concatenation\<close>

text \<open>
  The buffer of \<open>tetris_concat\<close> is a numpy array of objects that starts as zeros; an
  entry is \<open>None\<close> while it still holds the integer 0 and \<open>Some m\<close> once it holds a
  moment. Iterating over the integer raises TypeError. \<open>py_slice xs a b\<close> is \<open>xs[a:b]\<close>.
\<close>

type_synonym buffer = "moment option list"

definition py_slice :: "'a list \<Rightarrow> int \<Rightarrow> int \<Rightarrow> 'a list" where
  "py_slice xs a b =
     (let n = int (length xs);
          lo = (if a < 0 then max (n + a) 0 else min a n);
          hi = (if b < 0 then max (n + b) 0 else min b n)
      in take (nat (hi - lo)) (drop (nat lo) xs))"

text \<open>
  One step of the two inner loops of \<open>_overlap_collision_time\<close>, for a qubit met at time
  \<open>t\<close> in \<open>c2\<close> (recorded as \<open>t\<close>) or in \<open>c1\<close> (recorded as the complement \<open>~t = -t - 1\<close>).
  \<open>seen_times.setdefault\<close> stores the time only for a qubit not seen before.
\<close>

definition see_c2 :: "int \<Rightarrow> qid \<Rightarrow> (qid \<rightharpoonup> int) \<times> int \<Rightarrow> (qid \<rightharpoonup> int) \<times> int" where
  "see_c2 t q st =
     (let seen_times = fst st; upper_bound = snd st;
          k2 = (case seen_times q of None \<Rightarrow> t | Some v \<Rightarrow> v);
          seen1 = (case seen_times q of None \<Rightarrow> seen_times(q \<mapsto> t) | Some v \<Rightarrow> seen_times)
      in (seen1, if k2 < 0 then min upper_bound (t + (- k2 - 1)) else upper_bound))"

definition see_c1 :: "int \<Rightarrow> qid \<Rightarrow> (qid \<rightharpoonup> int) \<times> int \<Rightarrow> (qid \<rightharpoonup> int) \<times> int" where
  "see_c1 t q st =
     (let seen_times = fst st; upper_bound = snd st;
          k2 = (case seen_times q of None \<Rightarrow> - t - 1 | Some v \<Rightarrow> v);
          seen1 = (case seen_times q of None \<Rightarrow> seen_times(q \<mapsto> - t - 1) | Some v \<Rightarrow> seen_times)
      in (seen1, if k2 \<ge> 0 then min upper_bound (t + k2) else upper_bound))"

function overlap_loop ::
  "buffer \<Rightarrow> moment list \<Rightarrow> int \<Rightarrow> (qid \<rightharpoonup> int) \<times> int \<Rightarrow> error + int" where
  "overlap_loop c1 c2 t st =
     (if t < snd st then
        (let st1 = (if t < int (length c2)
                    then fold (see_c2 t) (concat (map qubits (c2 ! nat t))) st
                    else st)
         in if t < int (length c1)
            then (case c1 ! nat (int (length c1) - 1 - t) of
                    None \<Rightarrow> Inl TypeError
                  | Some m \<Rightarrow>
                      overlap_loop c1 c2 (t + 1) (fold (see_c1 t) (concat (map qubits m)) st1))
            else overlap_loop c1 c2 (t + 1) st1)
      else Inr (snd st))"
  by pat_completeness auto
termination
proof (relation "measure (\<lambda>(c1, c2, t, st). nat (snd st - t))")
  have c2_le: "snd (fold (see_c2 t) qs st) \<le> snd st" for t qs st
  proof (induction qs arbitrary: st)
    case Nil
    show ?case by simp
  next
    case (Cons q qs)
    have "snd (see_c2 t q st) \<le> snd st" by (simp add: see_c2_def Let_def)
    with Cons[of "see_c2 t q st"] show ?case by simp
  qed
  have c1_le: "snd (fold (see_c1 t) qs st) \<le> snd st" for t qs st
  proof (induction qs arbitrary: st)
    case Nil
    show ?case by simp
  next
    case (Cons q qs)
    have "snd (see_c1 t q st) \<le> snd st" by (simp add: see_c1_def Let_def)
    with Cons[of "see_c1 t q st"] show ?case by simp
  qed
  show "wf (measure (\<lambda>(c1, c2, t, st). nat (snd st - t)))" by simp
  fix c1 :: buffer and c2 :: "moment list" and t :: int and st :: "(qid \<rightharpoonup> int) \<times> int"
    and st1 m
  assume t: "t < snd st"
    and st1: "st1 = (if t < int (length c2)
                    then fold (see_c2 t) (concat (map qubits (c2 ! nat t))) st else st)"
  have le1: "snd st1 \<le> snd st" using st1 c2_le[of t _ st] by simp
  show "((c1, c2, t + 1, st1), (c1, c2, t, st)) \<in> measure (\<lambda>(c1, c2, t, st). nat (snd st - t))"
    using t le1 by simp
  show "((c1, c2, t + 1, fold (see_c1 t) (concat (map qubits m)) st1), (c1, c2, t, st))
          \<in> measure (\<lambda>(c1, c2, t, st). nat (snd st - t))"
    using t le1 c1_le[of t "concat (map qubits m)" st1] by simp
qed

declare overlap_loop.simps [simp del]

definition overlap_collision_time :: "buffer \<Rightarrow> moment list \<Rightarrow> alignment \<Rightarrow> error + int" where
  "overlap_collision_time c1 c2 align =
     overlap_loop c1 c2 0
       (Map.empty,
        case align of
          LEFT \<Rightarrow> int (length c1)
        | RIGHT \<Rightarrow> int (length c2)
        | FIRST \<Rightarrow> min (int (length c1)) (int (length c2)))"

text \<open>
  The loop of \<open>_tetris_concat_helper\<close> that merges \<open>c2\<close> into the buffer:
  \<open>buf[k + c2_offset] = (buf[k + c2_offset] or Moment()) + c2[k]\<close>.
\<close>

fun fill_buffer :: "buffer \<Rightarrow> moment list \<Rightarrow> int \<Rightarrow> int list \<Rightarrow> error + buffer" where
  "fill_buffer buf c2 c2_offset [] = Inr buf"
| "fill_buffer buf c2 c2_offset (k # ks) =
     (case subscript buf (k + c2_offset) of
        Inl e \<Rightarrow> Inl e
      | Inr j \<Rightarrow>
          (case moment_add (case buf ! j of None \<Rightarrow> [] | Some m \<Rightarrow> m) (c2 ! nat k) of
             Inl e \<Rightarrow> Inl e
           | Inr m \<Rightarrow> fill_buffer (buf[j := Some m]) c2 c2_offset ks))"

definition tetris_concat_helper ::
  "int \<Rightarrow> int \<Rightarrow> buffer \<Rightarrow> moment list \<Rightarrow> alignment \<Rightarrow> error + (int \<times> int) \<times> buffer" where
  "tetris_concat_helper c1_offset n1 buf c2 align =
     (let n2 = int (length c2) in
      case overlap_collision_time (py_slice buf c1_offset (c1_offset + n1)) c2 align of
        Inl e \<Rightarrow> Inl e
      | Inr shift \<Rightarrow>
          let c2_offset = c1_offset + n1 - shift in
          case fill_buffer buf c2 c2_offset (py_range 0 n2) of
            Inl e \<Rightarrow> Inl e
          | Inr buf1 \<Rightarrow>
              Inr ((min c1_offset c2_offset, max (max n1 n2) (n1 + n2 - shift)), buf1))"

fun tetris_concat_loop ::
  "moment list list \<Rightarrow> alignment \<Rightarrow> int \<Rightarrow> int \<Rightarrow> buffer \<Rightarrow> error + (int \<times> int) \<times> buffer" where
  "tetris_concat_loop [] align offset n_acc buf = Inr ((offset, n_acc), buf)"
| "tetris_concat_loop (c # cs) align offset n_acc buf =
     (case tetris_concat_helper offset n_acc buf c align of
        Inl e \<Rightarrow> Inl e
      | Inr ((offset1, n_acc1), buf1) \<Rightarrow> tetris_concat_loop cs align offset1 n_acc1 buf1)"

text \<open>
  The constructor call \<open>cirq.Circuit(buffer[offset : offset + n_acc])\<close>: the entries are
  appended to an empty circuit without device; an entry that is still the integer 0 is
  not an operation tree.
\<close>

definition Circuit_of_buffer :: "buffer \<Rightarrow> error + moment list" where
  "Circuit_of_buffer entries =
     (if None \<in> set entries then Inl TypeError
      else case append_circuit None []
                  (Tree (map (\<lambda>e. case e of Some m \<Rightarrow> Leaf (Mom m) | None \<Rightarrow> Tree []) entries))
                  EARLIEST of
             (Inl e, ms) \<Rightarrow> Inl e
           | (Inr k, ms) \<Rightarrow> Inr ms)"

definition tetris_concat :: "moment list list \<Rightarrow> alignment \<Rightarrow> error + moment list" where
  "tetris_concat circuits align =
     (case circuits of
        [] \<Rightarrow> Inr []
      | c0 # rest \<Rightarrow>
          let n_acc = int (length c0);
              pad_len = sum_list (map (\<lambda>c. int (length c)) circuits) - n_acc;
              buffer0 = replicate (nat (pad_len * 2 + n_acc)) None;
              offset = pad_len;
              buffer1 = take (nat offset) buffer0 @ map Some c0
                          @ drop (nat (offset + n_acc)) buffer0
          in case tetris_concat_loop rest align offset n_acc buffer1 of
               Inl e \<Rightarrow> Inl e
             | Inr ((offset1, n_acc1), buffer2) \<Rightarrow>
                 Circuit_of_buffer (py_slice buffer2 offset1 (offset1 + n_acc1)))"

text \<open>
  Modelled from the spec: equality of moments is equality of their unordered sets of
  operations; two circuits are equal when their moment sequences are equal element-wise.
\<close>

definition moment_eq :: "moment \<Rightarrow> moment \<Rightarrow> bool" where
  "moment_eq m1 m2 = (set m1 = set m2)"

definition circuit_eq :: "moment list \<Rightarrow> moment list \<Rightarrow> bool" where
  "circuit_eq c1 c2 = list_all2 moment_eq c1 c2"

text \<open>The circuits \<open>A\<close> and \<open>B\<close> of the docstring of \<open>tetris_concat\<close>: one operation each, on two distinct qubits.\<close>

definition H_a :: operation where
  "H_a = \<lparr>gate = 7, qubits = [0], control_keys = [], measurement_keys = []\<rparr>"

definition H_b :: operation where
  "H_b = \<lparr>gate = 7, qubits = [1], control_keys = [], measurement_keys = []\<rparr>"

definition circuit_A :: "moment list" where
  "circuit_A = [[H_a]]"

definition circuit_B :: "moment list" where
  "circuit_B = [[H_b]]"

section \<open>Batch edits\<close>

text \<open>
  The batch methods work on \<open>copy = self.copy()\<close>, a second circuit object whose attribute
  \<open>_moments\<close> is a new list object (\<open>self._moments[:]\<close>), and rebind \<open>self._moments\<close> to
  the list of the copy in their last statement. To tell the two lists apart, list objects
  live in a store: \<open>lists\<close> maps a reference to the content of the list at that
  address and \<open>next_ref\<close> is the first unused address. A circuit object is its reference
  to the list of moments together with its device.
\<close>

record store =
  lists :: "nat \<Rightarrow> moment list"
  next_ref :: nat

record circuit =
  moments_ref :: nat
  circuit_device :: "device option"

definition moments_of :: "store \<Rightarrow> circuit \<Rightarrow> moment list" where
  "moments_of st c = lists st (moments_ref c)"

definition copy :: "store \<Rightarrow> circuit \<Rightarrow> circuit \<times> store" where
  "copy st c =
     (\<lparr>moments_ref = next_ref st, circuit_device = circuit_device c\<rparr>,
      st\<lparr>lists := (lists st)(next_ref st := lists st (moments_ref c)),
         next_ref := Suc (next_ref st)\<rparr>)"

text \<open>
  The loops of the batch methods mutate the list of the copy in place; each is written
  over the content of that list and returns it as it is when the loop ends or raises.
\<close>

fun batch_remove_loop ::
  "(int \<times> operation) list \<Rightarrow> moment list \<Rightarrow> (error + unit) \<times> moment list" where
  "batch_remove_loop [] ms = (Inr (), ms)"
| "batch_remove_loop ((i, op) # removals) ms =
     (case subscript ms i of
        Inl e \<Rightarrow> (Inl e, ms)
      | Inr j \<Rightarrow>
          if op \<notin> set (ms ! j) then (Inl ValueError, ms)
          else (case Moment (filter (\<lambda>old_op. op \<noteq> old_op) (ms ! j)) of
                  Inl e \<Rightarrow> (Inl e, ms)
                | Inr m \<Rightarrow> batch_remove_loop removals (ms[j := m])))"

fun batch_replace_loop ::
  "(int \<times> operation \<times> operation) list \<Rightarrow> moment list \<Rightarrow> (error + unit) \<times> moment list" where
  "batch_replace_loop [] ms = (Inr (), ms)"
| "batch_replace_loop ((i, op, new_op) # replacements) ms =
     (case subscript ms i of
        Inl e \<Rightarrow> (Inl e, ms)
      | Inr j \<Rightarrow>
          if op \<notin> set (ms ! j) then (Inl ValueError, ms)
          else (case Moment (map (\<lambda>old_op. if old_op \<noteq> op then old_op else new_op) (ms ! j)) of
                  Inl e \<Rightarrow> (Inl e, ms)
                | Inr m \<Rightarrow> batch_replace_loop replacements (ms[j := m])))"

text \<open>
  \<open>_group_until_different\<close>: \<open>itertools.groupby\<close> collects runs of adjacent items with
  the same key.
\<close>

function group_until_different ::
  "'a list \<Rightarrow> ('a \<Rightarrow> 'k) \<Rightarrow> ('a \<Rightarrow> 'v) \<Rightarrow> ('k \<times> 'v list) list" where
  "group_until_different [] key val = []"
| "group_until_different (x # xs) key val =
     (key x, map val (x # takeWhile (\<lambda>y. key y = key x) xs))
       # group_until_different (dropWhile (\<lambda>y. key y = key x) xs) key val"
  by pat_completeness auto
termination
  by (relation "measure (\<lambda>(xs, key, val). length xs)")
     (auto simp: length_dropWhile_le less_Suc_eq_le)

fun batch_insert_loop ::
  "device option \<Rightarrow> (int \<times> op_tree list) list \<Rightarrow> int \<Rightarrow> moment list
     \<Rightarrow> (error + unit) \<times> moment list" where
  "batch_insert_loop dev [] shift ms = (Inr (), ms)"
| "batch_insert_loop dev ((i, group_ops) # groups) shift ms =
     (let insert_index = i + shift in
      case insert_circuit dev ms insert_index (Tree (rev group_ops)) EARLIEST of
        (Inl e, ms1) \<Rightarrow> (Inl e, ms1)
      | (Inr next_index, ms1) \<Rightarrow>
          batch_insert_loop dev groups
            (if next_index > insert_index then shift + (next_index - insert_index) else shift)
            ms1)"

text \<open>
  The methods themselves: copy, run the loop on the list of the copy, validate, and only
  then rebind \<open>self._moments\<close>. The result is the raised error or \<open>None\<close>, the store and
  the circuit object \<open>self\<close> after the call.
\<close>

definition commit ::
  "store \<Rightarrow> circuit \<Rightarrow> circuit \<Rightarrow> (error + unit) \<times> moment list \<Rightarrow> bool
     \<Rightarrow> (error + unit) \<times> store \<times> circuit" where
  "commit st self cp res validate =
     (let st1 = st\<lparr>lists := (lists st)(moments_ref cp := snd res)\<rparr> in
      case fst res of
        Inl e \<Rightarrow> (Inl e, st1, self)
      | Inr u \<Rightarrow>
          if validate \<and> \<not> dev_validate_circuit (circuit_device self) (snd res)
          then (Inl DeviceError, st1, self)
          else (Inr (), st1, self\<lparr>moments_ref := moments_ref cp\<rparr>))"

definition batch_remove ::
  "store \<Rightarrow> circuit \<Rightarrow> (int \<times> operation) list \<Rightarrow> (error + unit) \<times> store \<times> circuit" where
  "batch_remove st self removals =
     (let (cp, st1) = copy st self
      in commit st1 self cp (batch_remove_loop removals (moments_of st1 cp)) True)"

definition batch_replace ::
  "store \<Rightarrow> circuit \<Rightarrow> (int \<times> operation \<times> operation) list
     \<Rightarrow> (error + unit) \<times> store \<times> circuit" where
  "batch_replace st self replacements =
     (let (cp, st1) = copy st self
      in commit st1 self cp (batch_replace_loop replacements (moments_of st1 cp)) True)"

definition batch_insert ::
  "store \<Rightarrow> circuit \<Rightarrow> (int \<times> op_tree) list \<Rightarrow> (error + unit) \<times> store \<times> circuit" where
  "batch_insert st self insertions =
     (let (cp, st1) = copy st self;
          groups = group_until_different (sort_key fst insertions) fst snd
      in commit st1 self cp
           (batch_insert_loop (circuit_device cp) groups 0 (moments_of st1 cp)) False)"

text \<open>What a caller observes of a batch call: whether it raised, and the moments of \<open>self\<close> afterwards.\<close>

definition raised :: "(error + unit) \<times> store \<times> circuit \<Rightarrow> bool" where
  "raised res = isl (fst res)"

definition moments_after :: "(error + unit) \<times> store \<times> circuit \<Rightarrow> moment list" where
  "moments_after res = moments_of (fst (snd res)) (snd (snd res))"

text \<open>
  A store with scenario A at address 0, the circuit object that owns it, without a device
  and with a device that rejects operations of gate 9, and the operations of scenario A.
\<close>

definition store0 :: store where
  "store0 = \<lparr>lists = (\<lambda>a. if a = 0 then scenario_A else []), next_ref = 1\<rparr>"

definition self0 :: circuit where
  "self0 = \<lparr>moments_ref = 0, circuit_device = None\<rparr>"

definition rejecting_device :: device where
  "rejecting_device =
     \<lparr>validate_operation = (\<lambda>op. gate op \<noteq> 9), validate_moment = (\<lambda>m. True),
      validate_circuit = (\<lambda>ms. True),
      can_add_operation_into_moment = (\<lambda>op m. \<not> operates_on m (qubits op)),
      decompose_operation = (\<lambda>op. Leaf (Op op))\<rparr>"

definition self1 :: circuit where
  "self1 = \<lparr>moments_ref = 0, circuit_device = Some rejecting_device\<rparr>"

definition op_q0 :: operation where
  "op_q0 = \<lparr>gate = 0, qubits = [0], control_keys = [], measurement_keys = []\<rparr>"

definition op_q0_q1 :: operation where
  "op_q0_q1 = \<lparr>gate = 1, qubits = [0, 1], control_keys = [], measurement_keys = []\<rparr>"

definition op_rejected :: operation where
  "op_rejected = \<lparr>gate = 9, qubits = [0], control_keys = [], measurement_keys = []\<rparr>"

section \<open>Batch insertion as the spec words it\<close>

text \<open>
  The spec's reading of the index drift of \<open>batch_insert\<close>, for comparison with the loop
  of the source: when the insertion of a group grows the list by \<open>d\<close> moments, the target
  indices of the later groups move forward by \<open>d\<close>.
\<close>

fun batch_insert_by_growth_loop ::
  "device option \<Rightarrow> (int \<times> op_tree list) list \<Rightarrow> int \<Rightarrow> moment list
     \<Rightarrow> (error + unit) \<times> moment list" where
  "batch_insert_by_growth_loop dev [] shift ms = (Inr (), ms)"
| "batch_insert_by_growth_loop dev ((i, group_ops) # groups) shift ms =
     (case insert_circuit dev ms (i + shift) (Tree (rev group_ops)) EARLIEST of
        (Inl e, ms1) \<Rightarrow> (Inl e, ms1)
      | (Inr next_index, ms1) \<Rightarrow>
          batch_insert_by_growth_loop dev groups
            (shift + (int (length ms1) - int (length ms))) ms1)"

text \<open>Operations and circuits on which the two readings part.\<close>

definition X_q :: operation where
  "X_q = \<lparr>gate = 3, qubits = [0], control_keys = [], measurement_keys = []\<rparr>"

definition Y_r :: operation where
  "Y_r = \<lparr>gate = 4, qubits = [1], control_keys = [], measurement_keys = []\<rparr>"

definition Z_r :: operation where
  "Z_r = \<lparr>gate = 5, qubits = [1], control_keys = [], measurement_keys = []\<rparr>"

definition drift_circuit :: "moment list" where
  "drift_circuit = [[], [X_q], [], [], [Z_r]]"

definition store_of :: "moment list \<Rightarrow> store" where
  "store_of ms = \<lparr>lists = (\<lambda>a. if a = 0 then ms else []), next_ref = 1\<rparr>"

section \<open>Reachable frontier\<close>

text \<open>
  Modelled from the spec: \<open>BucketPriorityQueue\<close> is outside the sources. It hands out
  its entries by increasing key and, for equal keys, in the order in which they arrived;
  with duplicate suppression, an entry that is already queued is not queued again. The
  queue is the list of its entries in the order in which they will be dequeued.
\<close>

definition enqueue :: "(int \<times> 'a) list \<Rightarrow> int \<Rightarrow> 'a \<Rightarrow> (int \<times> 'a) list" where
  "enqueue entries priority item =
     (if (priority, item) \<in> set entries then entries
      else takeWhile (\<lambda>e. fst e \<le> priority) entries
             @ (priority, item) # dropWhile (\<lambda>e. fst e \<le> priority) entries)"

text \<open>The three local variables of \<open>reachable_frontier_from\<close> that its closure and loop update.\<close>

record frontier_state =
  active :: "qid set"
  end_frontier :: "qid \<rightharpoonup> int"
  queue :: "(int \<times> operation) list"

definition enqueue_next ::
  "moment list \<Rightarrow> frontier \<Rightarrow> qid \<Rightarrow> int \<Rightarrow> frontier_state \<Rightarrow> error + frontier_state" where
  "enqueue_next ms start_frontier qubit moment st =
     (case next_moment_operating_on ms [qubit] moment None of
        Inl e \<Rightarrow> Inl e
      | Inr None \<Rightarrow>
          (case map_of start_frontier qubit of
             None \<Rightarrow> Inl KeyError
           | Some s \<Rightarrow>
               Inr (st\<lparr>end_frontier := (end_frontier st)(qubit \<mapsto> max (int (length ms)) s),
                       active := active st - {qubit}\<rparr>))
      | Inr (Some next_moment) \<Rightarrow>
          (case operation_at ms qubit next_moment of
             None \<Rightarrow> Inl AssertionError
           | Some next_op \<Rightarrow> Inr (st\<lparr>queue := enqueue (queue st) next_moment next_op\<rparr>)))"

fun enqueue_next_all ::
  "moment list \<Rightarrow> frontier \<Rightarrow> (qid \<times> int) list \<Rightarrow> frontier_state \<Rightarrow> error + frontier_state" where
  "enqueue_next_all ms start_frontier [] st = Inr st"
| "enqueue_next_all ms start_frontier ((qubit, moment) # rest) st =
     (case enqueue_next ms start_frontier qubit moment st of
        Inl e \<Rightarrow> Inl e
      | Inr st1 \<Rightarrow> enqueue_next_all ms start_frontier rest st1)"

definition activate ::
  "frontier \<Rightarrow> int \<Rightarrow> (qid \<rightharpoonup> int) \<Rightarrow> qid \<Rightarrow> qid set \<Rightarrow> qid set" where
  "activate start_frontier cur_moment ends q act =
     (case map_of start_frontier q of
        None \<Rightarrow> act
      | Some s \<Rightarrow> if cur_moment \<ge> s \<and> ends q = None then act \<union> {q} else act)"

definition close_qubit :: "int \<Rightarrow> qid \<Rightarrow> frontier_state \<Rightarrow> frontier_state" where
  "close_qubit cur_moment q st =
     (if q \<in> active st
      then st\<lparr>end_frontier := (end_frontier st)(q \<mapsto> cur_moment), active := active st - {q}\<rparr>
      else st)"

definition frontier_step ::
  "moment list \<Rightarrow> frontier \<Rightarrow> (operation \<Rightarrow> bool) \<Rightarrow> int \<Rightarrow> operation \<Rightarrow> frontier_state
     \<Rightarrow> error + frontier_state" where
  "frontier_step ms start_frontier is_blocker cur_moment cur_op st =
     (let st1 = st\<lparr>active := fold (activate start_frontier cur_moment (end_frontier st))
                                  (qubits cur_op) (active st)\<rparr>;
          continue_past = (set (qubits cur_op) \<subseteq> active st1 \<and> \<not> is_blocker cur_op)
      in if continue_past
         then enqueue_next_all ms start_frontier
                (map (\<lambda>q. (q, cur_moment + 1)) (qubits cur_op)) st1
         else Inr (fold (close_qubit cur_moment) (qubits cur_op) st1))"

text \<open>
  The loop \<open>while queue\<close>. It may not be obvious that it ends, so it is a partial
  function: \<open>None\<close> stands for a loop that never returns.
\<close>

partial_function (option) frontier_loop ::
  "moment list \<Rightarrow> frontier \<Rightarrow> (operation \<Rightarrow> bool) \<Rightarrow> frontier_state
     \<Rightarrow> (error + (qid \<rightharpoonup> int)) option" where
  "frontier_loop ms start_frontier is_blocker st =
     (case queue st of
        [] \<Rightarrow> Some (Inr (end_frontier st))
      | entry # rest \<Rightarrow>
          (case frontier_step ms start_frontier is_blocker (fst entry) (snd entry)
                  (st\<lparr>queue := rest\<rparr>) of
             Inl e \<Rightarrow> Some (Inl e)
           | Inr st1 \<Rightarrow> frontier_loop ms start_frontier is_blocker st1))"

declare frontier_loop.simps [code]

definition reachable_frontier_from ::
  "moment list \<Rightarrow> frontier \<Rightarrow> (operation \<Rightarrow> bool) \<Rightarrow> (error + (qid \<rightharpoonup> int)) option" where
  "reachable_frontier_from ms start_frontier is_blocker =
     (case enqueue_next_all ms start_frontier start_frontier
             \<lparr>active = {}, end_frontier = Map.empty, queue = []\<rparr> of
        Inl e \<Rightarrow> Some (Inl e)
      | Inr st \<Rightarrow> frontier_loop ms start_frontier is_blocker st)"

text \<open>
  Vocabulary for the order in which a batch insertion leaves operations: two operations
  share a qubit; \<open>a\<close> sits in an earlier moment of the circuit than \<open>b\<close>; and the
  operations that \<open>insert\<close> places for a tree, after the device has decomposed it.
\<close>

definition shares_qubit :: "operation \<Rightarrow> operation \<Rightarrow> bool" where
  "shares_qubit a b = (\<exists>q \<in> set (qubits a). q \<in> set (qubits b))"

definition ordered_in :: "moment list \<Rightarrow> operation \<Rightarrow> operation \<Rightarrow> bool" where
  "ordered_in ms a b =
     (\<exists>pa pb. pa < pb \<and> pb < length ms \<and> a \<in> set (ms ! pa) \<and> b \<in> set (ms ! pb))"

definition tree_ops :: "device option \<Rightarrow> op_tree \<Rightarrow> operation list" where
  "tree_ops dev t = flatten_to_ops (transform_op_tree dev t)"

chapter \<open>Verified properties\<close>

section \<open>Searching for the next and the previous moment\<close>

lemma first_moment_operating_on_None:
  "first_moment_operating_on ms qs idx = None \<longleftrightarrow> (\<forall>j \<in> set idx. \<not> has_op_at ms j qs)"
  by (induction idx) auto

lemma first_moment_operating_on_Some:
  "first_moment_operating_on ms qs idx = Some m \<Longrightarrow> m \<in> set idx \<and> has_op_at ms m qs"
  by (induction idx) (auto split: if_splits)

lemma first_moment_operating_on_least:
  "first_moment_operating_on ms qs idx = Some m \<Longrightarrow> sorted idx \<Longrightarrow> j \<in> set idx \<Longrightarrow> j < m
     \<Longrightarrow> \<not> has_op_at ms j qs"
  by (induction idx) (auto split: if_splits dest: first_moment_operating_on_Some)

lemma set_py_range: "set (py_range a b) = {j. a \<le> j \<and> j < b}"
  by (auto simp: py_range_def)

lemma sorted_py_range: "sorted (py_range a b)"
  by (simp add: py_range_def)

text \<open>
  C6: \<open>next_moment_operating_on\<close> fails with ValueError for a negative
  \<open>max_distance\<close>; otherwise it returns the least index of the window from \<open>start\<close> to
  \<open>start + max_distance\<close> (clamped to the number of moments) whose moment operates on one
  of the qubits, and \<open>None\<close> when the window holds no such moment. On scenario A the next
  moment on qubit 1 from index 0 is 2, and the previous moment on qubit 0 before index 3
  is 2.
\<close>

theorem next_moment_operating_on_window:
  "(d < 0 \<longrightarrow> next_moment_operating_on ms qs start (Some d) = Inl ValueError) \<and>
   ((\<forall>d. md = Some d \<longrightarrow> 0 \<le> d) \<longrightarrow>
      (\<exists>r. next_moment_operating_on ms qs start md = Inr r \<and>
        (case r of
           None \<Rightarrow> \<forall>j. start \<le> j \<and> j < window_end ms start md \<longrightarrow> \<not> has_op_at ms j qs
         | Some m \<Rightarrow> start \<le> m \<and> m < window_end ms start md \<and> has_op_at ms m qs \<and>
              (\<forall>j. start \<le> j \<and> j < m \<longrightarrow> \<not> has_op_at ms j qs)))) \<and>
   next_moment_operating_on scenario_A [1] 0 None = Inr (Some 2) \<and>
   prev_moment_operating_on scenario_A [0] (Some 3) None = Inr (Some 2)"
proof (intro conjI impI)
  assume "d < 0"
  then show "next_moment_operating_on ms qs start (Some d) = Inl ValueError"
    by (simp add: next_moment_operating_on_def)
next
  assume nonneg: "\<forall>d. md = Some d \<longrightarrow> 0 \<le> d"
  define hi where "hi = window_end ms start md"
  define r where "r = first_moment_operating_on ms qs (py_range start hi)"
  have eq: "next_moment_operating_on ms qs start md = Inr r"
    using nonneg unfolding r_def hi_def
    by (cases md) (auto simp: next_moment_operating_on_def window_end_def Let_def min_def)
  have "case r of
           None \<Rightarrow> \<forall>j. start \<le> j \<and> j < hi \<longrightarrow> \<not> has_op_at ms j qs
         | Some m \<Rightarrow> start \<le> m \<and> m < hi \<and> has_op_at ms m qs \<and>
              (\<forall>j. start \<le> j \<and> j < m \<longrightarrow> \<not> has_op_at ms j qs)"
  proof (cases r)
    case None
    then show ?thesis
      using first_moment_operating_on_None[of ms qs "py_range start hi"]
      by (simp add: r_def set_py_range)
  next
    case (Some m)
    then have f: "first_moment_operating_on ms qs (py_range start hi) = Some m"
      by (simp add: r_def)
    from first_moment_operating_on_Some[OF f]
    have a: "start \<le> m" "m < hi" "has_op_at ms m qs" by (auto simp: set_py_range)
    have "\<not> has_op_at ms j qs" if "start \<le> j" "j < m" for j
      using first_moment_operating_on_least[OF f sorted_py_range, of j] that a
      by (simp add: set_py_range)
    with a Some show ?thesis by simp
  qed
  with eq show "\<exists>r. next_moment_operating_on ms qs start md = Inr r \<and>
        (case r of
           None \<Rightarrow> \<forall>j. start \<le> j \<and> j < window_end ms start md \<longrightarrow> \<not> has_op_at ms j qs
         | Some m \<Rightarrow> start \<le> m \<and> m < window_end ms start md \<and> has_op_at ms m qs \<and>
              (\<forall>j. start \<le> j \<and> j < m \<longrightarrow> \<not> has_op_at ms j qs))"
    unfolding hi_def by blast
next
  show "next_moment_operating_on scenario_A [1] 0 None = Inr (Some 2)"
    by code_simp
next
  show "prev_moment_operating_on scenario_A [0] (Some 3) None = Inr (Some 2)"
    by code_simp
qed

theorem next_moment_operating_on_window_witness:
  "(-1::int) < 0 \<and>
   next_moment_operating_on scenario_A [0] 1 (Some (-1)) = Inl ValueError \<and>
   next_moment_operating_on scenario_A [0] 1 (Some 1) = Inr None \<and>
   next_moment_operating_on scenario_A [0] 1 (Some 7) = Inr (Some 2)"
proof -
  have a: "next_moment_operating_on scenario_A [0] 1 (Some (-1)) = Inl ValueError"
    using next_moment_operating_on_window[of "-1" scenario_A "[0]" 1 "Some 1"] by simp
  have b: "next_moment_operating_on scenario_A [0] 1 (Some 1) = Inr None"
    by code_simp
  have c: "next_moment_operating_on scenario_A [0] 1 (Some 7) = Inr (Some 2)"
    by code_simp
  from a b c show ?thesis by simp
qed

section \<open>Insertion never leaves the list\<close>

lemma subscript_in_range:
  "0 \<le> i \<Longrightarrow> i < int (length xs) \<Longrightarrow> subscript xs i = Inr (nat i)"
  by (simp add: subscript_def)

lemma prev_moment_available_loop_bounds:
  "k \<le> int (length ms) \<Longrightarrow>
     \<exists>p. prev_moment_available_loop dev ms op k la = Inr p \<and> (p = la \<or> (0 \<le> p \<and> p < k))"
proof (induction dev ms op k la rule: prev_moment_available_loop.induct)
  case (1 dev ms op k la)
  show ?case
  proof (cases "k > 0")
    case False
    then show ?thesis by (subst prev_moment_available_loop.simps) simp
  next
    case True
    with "1.prems" have sub: "subscript ms (k - 1) = Inr (nat (k - 1))"
      by (simp add: subscript_in_range)
    show ?thesis
    proof (cases "operates_on (ms ! nat (k - 1)) (qubits op)
                \<or> \<not> isdisjoint (control_keys op) (moment_measurement_keys (ms ! nat (k - 1)))
                \<or> \<not> isdisjoint (moment_control_keys (ms ! nat (k - 1))) (measurement_keys op)")
      case blocked: True
      show ?thesis
        by (subst prev_moment_available_loop.simps) (use True sub blocked in auto)
    next
      case free: False
      from "1.IH"[OF True sub free] "1.prems"
      obtain p where p: "prev_moment_available_loop dev ms op (k - 1)
             (if can_add_op_at dev ms (k - 1) op then k - 1 else la) = Inr p"
        "p = (if can_add_op_at dev ms (k - 1) op then k - 1 else la) \<or> (0 \<le> p \<and> p < k - 1)"
        by auto
      have "prev_moment_available_loop dev ms op k la = Inr p"
        by (subst prev_moment_available_loop.simps) (use True sub free p(1) in auto)
      moreover have "p = la \<or> (0 \<le> p \<and> p < k)"
        using p(2) True by (auto split: if_splits)
      ultimately show ?thesis by blast
    qed
  qed
qed

lemma length_list_insert: "length (list_insert xs i x) = Suc (length xs)"
  by (simp add: list_insert_def Let_def)

lemma pick_NEW_ok: "0 \<le> k \<Longrightarrow> k \<le> int (length ms) \<Longrightarrow> pick_ok ms k (pick_NEW ms k)"
  by (simp add: pick_ok_def pick_NEW_def length_list_insert)

lemma pick_INLINE_ok:
  "0 \<le> k \<Longrightarrow> k \<le> int (length ms) \<Longrightarrow> pick_ok ms k (pick_INLINE dev ms k op)"
  using pick_NEW_ok[of k ms] by (simp add: pick_INLINE_def) (simp add: pick_ok_def)

lemma pick_EARLIEST_ok:
  assumes "0 \<le> k" "k \<le> int (length ms)"
  shows "pick_ok ms k (pick_EARLIEST dev ms k op)"
proof (cases "can_add_op_at dev ms k op")
  case False
  then show ?thesis using pick_INLINE_ok[OF assms] by (simp add: pick_EARLIEST_def)
next
  case True
  from prev_moment_available_loop_bounds[OF assms(2), of dev op k]
  obtain p where "prev_moment_available_loop dev ms op k k = Inr p" "p = k \<or> (0 \<le> p \<and> p < k)"
    by blast
  with True assms show ?thesis
    by (auto simp: pick_EARLIEST_def prev_moment_available_def pick_ok_def)
qed

lemma pick_bounds:
  "0 \<le> k \<Longrightarrow> k \<le> int (length ms) \<Longrightarrow>
     pick_ok ms k (pick_or_create_inserted_op_moment_index dev ms k op strategy)"
  using pick_NEW_ok[of k ms] pick_INLINE_ok[of k ms dev op] pick_EARLIEST_ok[of k ms dev op]
  by (cases strategy) (simp_all add: pick_or_create_inserted_op_moment_index_def, simp add: pick_ok_def)

lemma insert_loop_no_IndexError:
  "0 \<le> k \<Longrightarrow> k \<le> int (length ms) \<Longrightarrow> fst (insert_loop dev items strategy k ms) \<noteq> Inl IndexError"
proof (induction items arbitrary: strategy k ms)
  case Nil
  then show ?case by simp
next
  case (Cons item rest)
  show ?case
  proof (cases item)
    case (Mom m)
    have "0 \<le> k + 1" "k + 1 \<le> int (length (list_insert ms k m))"
      using Cons.prems by (simp_all add: length_list_insert)
    from Cons.IH[OF this] Mom show ?thesis by simp
  next
    case (Op op)
    obtain r ms1 where pick: "pick_or_create_inserted_op_moment_index dev ms k op strategy = (r, ms1)"
      by (cases "pick_or_create_inserted_op_moment_index dev ms k op strategy")
    from pick_bounds[OF Cons.prems, of dev op strategy] pick
    have ok: "r \<noteq> Inl IndexError" "length ms \<le> length ms1"
      "\<And>p. r = Inr p \<Longrightarrow> 0 \<le> p \<and> p \<le> k \<and> (p < int (length ms1) \<or> p = k)"
      by (auto simp: pick_ok_def)
    show ?thesis
    proof (cases r)
      case (Inl e)
      with ok(1) pick Op show ?thesis by simp
    next
      case (Inr p)
      define ms2 where "ms2 = ms1 @ replicate (nat (p + 1 - int (length ms1))) []"
      from ok(3)[OF Inr] have p: "0 \<le> p" "p \<le> k" by auto
      have len2: "p < int (length ms2)" "int (length ms1) \<le> int (length ms2)"
        unfolding ms2_def by auto
      have sub: "subscript ms2 p = Inr (nat p)"
        using p(1) len2(1) by (simp add: subscript_in_range)
      have k2: "0 \<le> max k (p + 1)" "max k (p + 1) \<le> int (length (ms2[nat p := m]))" for m
        using Cons.prems ok(2) len2 by auto
      have wo: "with_operation m op \<noteq> Inl IndexError" for m
        by (simp add: with_operation_def)
      show ?thesis
        using pick Op Inr sub Cons.IH[OF k2] wo
        by (auto simp: Let_def ms2_def[symmetric] split: sum.splits)
    qed
  qed
qed

lemma insertion_cursor_bounds:
  "0 \<le> insertion_cursor ms index \<and> insertion_cursor ms index \<le> int (length ms)"
  by (simp add: insertion_cursor_def)

text \<open>
  C9: \<open>insert\<close> takes any integer index. A negative index counts from the end of the
  list, the cursor is clamped into \<open>[0, length]\<close>, and no subscript of the insertion
  loop is out of range: \<open>insert\<close> never fails with IndexError.
\<close>

theorem insert_no_index_error:
  "fst (insert_circuit dev ms index tree strategy) \<noteq> Inl IndexError \<and>
   0 \<le> insertion_cursor ms index \<and> insertion_cursor ms index \<le> int (length ms) \<and>
   (index < 0 \<longrightarrow> insertion_cursor ms index = max (int (length ms) + index) 0) \<and>
   (0 \<le> index \<longrightarrow> insertion_cursor ms index = min index (int (length ms)))"
proof -
  have "fst (insert_circuit dev ms index tree strategy) \<noteq> Inl IndexError"
    using insert_loop_no_IndexError[of "insertion_cursor ms index" ms dev _ strategy]
      insertion_cursor_bounds[of ms index]
    by (simp add: insert_circuit_def Let_def)
  then show ?thesis by (auto simp: insertion_cursor_def)
qed

theorem insert_no_index_error_witness:
  "fst (insert_circuit None scenario_A (-7) (Leaf (Op \<lparr>gate = 2, qubits = [1], control_keys = [],
          measurement_keys = []\<rparr>)) EARLIEST) \<noteq> Inl IndexError \<and>
   insertion_cursor scenario_A (-7) = 0 \<and> insertion_cursor scenario_A (-1) = 2 \<and>
   insertion_cursor scenario_A 9 = 3"
proof -
  have a: "fst (insert_circuit None scenario_A (-7) (Leaf (Op \<lparr>gate = 2, qubits = [1], control_keys = [],
          measurement_keys = []\<rparr>)) EARLIEST) \<noteq> Inl IndexError"
    using insert_no_index_error[of None scenario_A "-7" _ EARLIEST] by blast
  have b: "insertion_cursor scenario_A (-7) = 0" "insertion_cursor scenario_A (-1) = 2"
    "insertion_cursor scenario_A 9 = 3"
    by (simp_all add: insertion_cursor_def scenario_A_def)
  from a b show ?thesis by simp
qed

section \<open>Inserting into a range\<close>

text \<open>
  C5: when \<open>0 \<le> start \<le> end \<le> length\<close> does not hold, \<open>insert_into_range\<close> fails with
  IndexError (the spec's InvalidRange) and the list of moments is as it was.
\<close>

theorem insert_into_range_bad_indices:
  "\<not> (0 \<le> start \<and> start \<le> end_index \<and> end_index \<le> int (length ms)) \<Longrightarrow>
     insert_into_range dev ms operations start end_index = (Inl IndexError, ms)"
  by (simp add: insert_into_range_def)

theorem insert_into_range_bad_indices_witness:
  "\<not> (0 \<le> (2::int) \<and> (2::int) \<le> 1 \<and> 1 \<le> int (length scenario_A)) \<and>
   insert_into_range None scenario_A
     (Leaf (Op \<lparr>gate = 2, qubits = [1], control_keys = [], measurement_keys = []\<rparr>)) 2 1
     = (Inl IndexError, scenario_A)"
  using insert_into_range_bad_indices[of 2 1 scenario_A None
      "Leaf (Op \<lparr>gate = 2, qubits = [1], control_keys = [], measurement_keys = []\<rparr>)"]
  by simp

section \<open>The EARLIEST strategy\<close>

lemma prev_loop_step:
  "0 < k \<Longrightarrow> k \<le> int (length ms) \<Longrightarrow>
   prev_moment_available_loop dev ms op k la =
     (if blocked_by op (ms ! nat (k - 1)) then Inr la
      else prev_moment_available_loop dev ms op (k - 1)
             (if can_add_op_at dev ms (k - 1) op then k - 1 else la))"
  by (subst prev_moment_available_loop.simps) (simp add: subscript_in_range blocked_by_def)

lemma prev_loop_stop: "\<not> 0 < k \<Longrightarrow> prev_moment_available_loop dev ms op k la = Inr la"
  by (subst prev_moment_available_loop.simps) simp

lemma prev_loop_reachable:
  "k \<le> int (length ms) \<Longrightarrow> prev_moment_available_loop dev ms op k la = Inr p \<Longrightarrow>
     p = la \<or> (0 \<le> p \<and> p < k \<and> can_add_op_at dev ms p op \<and>
               (\<forall>i. p \<le> i \<and> i < k \<longrightarrow> \<not> blocked_by op (ms ! nat i)))"
proof (induction dev ms op k la rule: prev_moment_available_loop.induct)
  case (1 dev ms op k la)
  show ?case
  proof (cases "0 < k")
    case False
    with "1.prems" show ?thesis by (simp add: prev_loop_stop)
  next
    case True
    note step = prev_loop_step[OF True "1.prems"(1), of dev op la]
    show ?thesis
    proof (cases "blocked_by op (ms ! nat (k - 1))")
      case b: True
      with step "1.prems" show ?thesis by simp
    next
      case nb: False
      let ?la = "if can_add_op_at dev ms (k - 1) op then k - 1 else la"
      have sub: "subscript ms (k - 1) = Inr (nat (k - 1))"
        using True "1.prems"(1) by (simp add: subscript_in_range)
      have nb': "\<not> (operates_on (ms ! nat (k - 1)) (qubits op)
                \<or> \<not> isdisjoint (control_keys op) (moment_measurement_keys (ms ! nat (k - 1)))
                \<or> \<not> isdisjoint (moment_control_keys (ms ! nat (k - 1))) (measurement_keys op))"
        using nb by (simp add: blocked_by_def)
      have rec: "prev_moment_available_loop dev ms op (k - 1) ?la = Inr p"
        using step nb "1.prems"(2) by simp
      have "k - 1 \<le> int (length ms)" using "1.prems"(1) by simp
      from "1.IH"[OF True sub nb' this rec]
      have ih: "p = ?la \<or> (0 \<le> p \<and> p < k - 1 \<and> can_add_op_at dev ms p op \<and>
               (\<forall>i. p \<le> i \<and> i < k - 1 \<longrightarrow> \<not> blocked_by op (ms ! nat i)))" .
      have ext: "(\<forall>i. q \<le> i \<and> i < k - 1 \<longrightarrow> \<not> blocked_by op (ms ! nat i)) \<Longrightarrow>
                 (\<forall>i. q \<le> i \<and> i < k \<longrightarrow> \<not> blocked_by op (ms ! nat i))" for q
      proof (intro allI impI)
        fix i assume a: "\<forall>i. q \<le> i \<and> i < k - 1 \<longrightarrow> \<not> blocked_by op (ms ! nat i)" and b: "q \<le> i \<and> i < k"
        show "\<not> blocked_by op (ms ! nat i)"
        proof (cases "i = k - 1")
          case True then show ?thesis using nb by simp
        next
          case False then show ?thesis using a b by simp
        qed
      qed
      from ih show ?thesis
      proof
        assume e: "p = ?la"
        show ?thesis
        proof (cases "can_add_op_at dev ms (k - 1) op")
          case False with e show ?thesis by simp
        next
          case ca: True
          with e have pk: "p = k - 1" by simp
          have "\<not> blocked_by op (ms ! nat i)" if "p \<le> i \<and> i < k" for i
          proof -
            from that pk have "i = k - 1" by simp
            with nb show ?thesis by simp
          qed
          with pk ca True show ?thesis by simp
        qed
      next
        assume r: "0 \<le> p \<and> p < k - 1 \<and> can_add_op_at dev ms p op \<and>
               (\<forall>i. p \<le> i \<and> i < k - 1 \<longrightarrow> \<not> blocked_by op (ms ! nat i))"
        with ext[of p] show ?thesis by simp
      qed
    qed
  qed
qed

lemma prev_loop_least:
  "k \<le> int (length ms) \<Longrightarrow> prev_moment_available_loop dev ms op k la = Inr p \<Longrightarrow>
   0 \<le> j \<Longrightarrow> j < k \<Longrightarrow> j < p \<Longrightarrow>
   (\<forall>i. j \<le> i \<and> i < k \<longrightarrow> \<not> blocked_by op (ms ! nat i)) \<Longrightarrow>
   \<not> can_add_op_at dev ms j op"
proof (induction dev ms op k la rule: prev_moment_available_loop.induct)
  case (1 dev ms op k la)
  from "1.prems" have True: "0 < k" by simp
  note step = prev_loop_step[OF True "1.prems"(1), of dev op la]
  have nb: "\<not> blocked_by op (ms ! nat (k - 1))" using "1.prems" by simp
  let ?la = "if can_add_op_at dev ms (k - 1) op then k - 1 else la"
  have sub: "subscript ms (k - 1) = Inr (nat (k - 1))"
    using True "1.prems"(1) by (simp add: subscript_in_range)
  have nb': "\<not> (operates_on (ms ! nat (k - 1)) (qubits op)
            \<or> \<not> isdisjoint (control_keys op) (moment_measurement_keys (ms ! nat (k - 1)))
            \<or> \<not> isdisjoint (moment_control_keys (ms ! nat (k - 1))) (measurement_keys op))"
    using nb by (simp add: blocked_by_def)
  have rec: "prev_moment_available_loop dev ms op (k - 1) ?la = Inr p"
    using step nb "1.prems"(2) by simp
  have len: "k - 1 \<le> int (length ms)" using "1.prems"(1) by simp
  show ?case
  proof (cases "j = k - 1")
    case True
    show ?thesis
    proof
      assume ca: "can_add_op_at dev ms j op"
      with True rec have "prev_moment_available_loop dev ms op (k - 1) (k - 1) = Inr p" by simp
      from prev_moment_available_loop_bounds[OF len, of dev op "k - 1"] this
      have "p \<le> k - 1" by auto
      with True "1.prems"(5) show False by simp
    qed
  next
    case False
    have "\<forall>i. j \<le> i \<and> i < k - 1 \<longrightarrow> \<not> blocked_by op (ms ! nat i)" using "1.prems"(6) by simp
    from "1.IH"[OF \<open>0 < k\<close> sub nb' len rec "1.prems"(3) _ "1.prems"(5) this] False "1.prems"(4)
    show ?thesis by simp
  qed
qed


lemma insertion_cursor_end [simp]: "insertion_cursor ms (int (length ms)) = int (length ms)"
  by (simp add: insertion_cursor_def)

lemma can_add_op_at_end [simp]: "can_add_op_at dev ms (int (length ms)) op"
  by (simp add: can_add_op_at_def)

lemma pick_EARLIEST_end:
  "\<exists>p. pick_or_create_inserted_op_moment_index dev ms (int (length ms)) op EARLIEST = (Inr p, ms)
       \<and> prev_moment_available_loop dev ms op (int (length ms)) (int (length ms)) = Inr p
       \<and> 0 \<le> p \<and> p \<le> int (length ms)"
proof -
  from prev_moment_available_loop_bounds[of "int (length ms)" ms dev op "int (length ms)"]
  obtain p where p: "prev_moment_available_loop dev ms op (int (length ms)) (int (length ms)) = Inr p"
    "p = int (length ms) \<or> (0 \<le> p \<and> p < int (length ms))" by auto
  then show ?thesis
    by (auto simp: pick_or_create_inserted_op_moment_index_def pick_EARLIEST_def
        prev_moment_available_def)
qed

lemma append_op_EARLIEST:
  assumes dec: "flatten_to_ops_or_moments (transform_op_tree dev (Leaf (Op op))) = [Op op]"
    and app: "append_circuit dev ms (Leaf (Op op)) EARLIEST = (Inr k1, ms1)"
    and pick: "pick_or_create_inserted_op_moment_index dev ms (int (length ms)) op EARLIEST = (Inr p, ms)"
    and p: "0 \<le> p" "p \<le> int (length ms)"
  shows "length ms \<le> length ms1 \<and> nat p < length ms1 \<and> op \<in> set (ms1 ! nat p) \<and>
         (\<forall>i. i < length ms \<and> i \<noteq> nat p \<longrightarrow> ms1 ! i = ms ! i)"
proof -
  define ms2 where "ms2 = ms @ replicate (nat (p + 1 - int (length ms))) []"
  have len2: "p < int (length ms2)" "length ms \<le> length ms2"
    unfolding ms2_def using p by auto
  have sub: "subscript ms2 p = Inr (nat p)"
    using p(1) len2(1) by (simp add: subscript_in_range)
  have loop: "insert_loop dev [Op op] EARLIEST (int (length ms)) ms = (Inr k1, ms1)"
    using app dec by (simp add: append_circuit_def insert_circuit_def Let_def split: if_splits)
  then obtain m where m: "with_operation (ms2 ! nat p) op = Inr m" and ms1: "ms1 = ms2[nat p := m]"
    using pick sub by (auto simp: Let_def ms2_def[symmetric] split: sum.splits if_splits)
  from m have mm: "m = ms2 ! nat p @ [op]"
    by (auto simp: with_operation_def split: if_splits)
  have a: "length ms \<le> length ms1" using ms1 len2 by simp
  have b: "nat p < length ms1" using ms1 len2 p by simp
  have c: "op \<in> set (ms1 ! nat p)" using ms1 mm b by simp
  have d: "ms1 ! i = ms ! i" if "i < length ms \<and> i \<noteq> nat p" for i
    using that ms1 by (simp add: ms2_def nth_append)
  from a b c d show ?thesis by blast
qed

text \<open>
  C3: when an operation is appended twice in succession with the strategy EARLIEST, the
  moment index picked for the second occurrence is not smaller than the index picked for
  the first. The indices are the ones \<open>_pick_or_create_inserted_op_moment_index\<close>
  returns, and each occurrence is written into the moment at its index. The device, if
  there is one, is assumed to leave the operation undecomposed.
\<close>

theorem earliest_twice_not_earlier:
  assumes dec: "flatten_to_ops_or_moments (transform_op_tree dev (Leaf (Op op))) = [Op op]"
    and first: "append_circuit dev ms (Leaf (Op op)) EARLIEST = (Inr k1, ms1)"
    and second: "append_circuit dev ms1 (Leaf (Op op)) EARLIEST = (Inr k2, ms2)"
  shows "\<exists>p1 p2.
           pick_or_create_inserted_op_moment_index dev ms (int (length ms)) op EARLIEST = (Inr p1, ms) \<and>
           pick_or_create_inserted_op_moment_index dev ms1 (int (length ms1)) op EARLIEST = (Inr p2, ms1) \<and>
           0 \<le> p1 \<and> nat p1 < length ms1 \<and> op \<in> set (ms1 ! nat p1) \<and>
           0 \<le> p2 \<and> nat p2 < length ms2 \<and> op \<in> set (ms2 ! nat p2) \<and>
           p1 \<le> p2"
proof -
  from pick_EARLIEST_end[of dev ms op] obtain p1 where
    pick1: "pick_or_create_inserted_op_moment_index dev ms (int (length ms)) op EARLIEST = (Inr p1, ms)"
    and loop1: "prev_moment_available_loop dev ms op (int (length ms)) (int (length ms)) = Inr p1"
    and p1: "0 \<le> p1" "p1 \<le> int (length ms)" by blast
  from pick_EARLIEST_end[of dev ms1 op] obtain p2 where
    pick2: "pick_or_create_inserted_op_moment_index dev ms1 (int (length ms1)) op EARLIEST = (Inr p2, ms1)"
    and loop2: "prev_moment_available_loop dev ms1 op (int (length ms1)) (int (length ms1)) = Inr p2"
    and p2: "0 \<le> p2" "p2 \<le> int (length ms1)" by blast
  from append_op_EARLIEST[OF dec first pick1 p1]
  have r1: "length ms \<le> length ms1" "nat p1 < length ms1" "op \<in> set (ms1 ! nat p1)"
    "\<And>i. i < length ms \<Longrightarrow> i \<noteq> nat p1 \<Longrightarrow> ms1 ! i = ms ! i" by auto
  from append_op_EARLIEST[OF dec second pick2 p2]
  have r2: "nat p2 < length ms2" "op \<in> set (ms2 ! nat p2)" by auto
  have "p1 \<le> p2"
  proof (rule ccontr)
    assume "\<not> p1 \<le> p2"
    then have lt: "p2 < p1" by simp
    with p1 r1(1) have p2len: "p2 < int (length ms)" "p2 \<noteq> int (length ms1)" by auto
    from prev_loop_reachable[OF _ loop2] p2len(2)
    have reach2: "can_add_op_at dev ms1 p2 op"
      "\<forall>i. p2 \<le> i \<and> i < int (length ms1) \<longrightarrow> \<not> blocked_by op (ms1 ! nat i)" by auto
    have same: "ms1 ! nat i = ms ! nat i" if "0 \<le> i" "i < int (length ms)" "i \<noteq> p1" for i
      using r1(4)[of "nat i"] that p1 by auto
    have ca: "can_add_op_at dev ms p2 op"
      using reach2(1) same[of p2] p2 p2len lt r1(1)
      by (cases dev) (simp_all add: can_add_op_at_def)
    have free1: "\<forall>i. p1 \<le> i \<and> i < int (length ms) \<longrightarrow> \<not> blocked_by op (ms ! nat i)"
      using prev_loop_reachable[OF _ loop1] by auto
    have free: "\<forall>i. p2 \<le> i \<and> i < int (length ms) \<longrightarrow> \<not> blocked_by op (ms ! nat i)"
    proof (intro allI impI)
      fix i assume i: "p2 \<le> i \<and> i < int (length ms)"
      show "\<not> blocked_by op (ms ! nat i)"
      proof (cases "i = p1")
        case True with free1 i show ?thesis by simp
      next
        case False
        with same[of i] i p2 have "ms1 ! nat i = ms ! nat i" by simp
        moreover have "\<not> blocked_by op (ms1 ! nat i)" using reach2(2) i r1(1) by simp
        ultimately show ?thesis by simp
      qed
    qed
    from prev_loop_least[OF _ loop1 p2(1) p2len(1) lt free] ca show False by simp
  qed
  with pick1 pick2 p1 p2 r1 r2 show ?thesis by blast
qed

theorem earliest_twice_not_earlier_witness:
  "flatten_to_ops_or_moments (transform_op_tree None
      (Leaf (Op \<lparr>gate = 2, qubits = [1], control_keys = [], measurement_keys = []\<rparr>)))
     = [Op \<lparr>gate = 2, qubits = [1], control_keys = [], measurement_keys = []\<rparr>] \<and>
   append_circuit None scenario_A
      (Leaf (Op \<lparr>gate = 2, qubits = [1], control_keys = [], measurement_keys = []\<rparr>)) EARLIEST
     = (Inr 4, scenario_A @ [[\<lparr>gate = 2, qubits = [1], control_keys = [], measurement_keys = []\<rparr>]]) \<and>
   append_circuit None (scenario_A @ [[\<lparr>gate = 2, qubits = [1], control_keys = [], measurement_keys = []\<rparr>]])
      (Leaf (Op \<lparr>gate = 2, qubits = [1], control_keys = [], measurement_keys = []\<rparr>)) EARLIEST
     = (Inr 5, scenario_A @ [[\<lparr>gate = 2, qubits = [1], control_keys = [], measurement_keys = []\<rparr>],
                             [\<lparr>gate = 2, qubits = [1], control_keys = [], measurement_keys = []\<rparr>]]) \<and>
   (\<exists>p1 p2.
      pick_or_create_inserted_op_moment_index None scenario_A (int (length scenario_A))
        \<lparr>gate = 2, qubits = [1], control_keys = [], measurement_keys = []\<rparr> EARLIEST
        = (Inr p1, scenario_A) \<and>
      pick_or_create_inserted_op_moment_index None
        (scenario_A @ [[\<lparr>gate = 2, qubits = [1], control_keys = [], measurement_keys = []\<rparr>]])
        (int (length (scenario_A @ [[\<lparr>gate = 2, qubits = [1], control_keys = [],
                                     measurement_keys = []\<rparr>]])))
        \<lparr>gate = 2, qubits = [1], control_keys = [], measurement_keys = []\<rparr> EARLIEST
        = (Inr p2, scenario_A @ [[\<lparr>gate = 2, qubits = [1], control_keys = [],
                                   measurement_keys = []\<rparr>]]) \<and>
      p1 \<le> p2)"
proof -
  let ?op = "\<lparr>gate = 2, qubits = [1], control_keys = [], measurement_keys = []\<rparr>"
  have h1: "flatten_to_ops_or_moments (transform_op_tree None (Leaf (Op ?op))) = [Op ?op]"
    by simp
  have h2: "append_circuit None scenario_A (Leaf (Op ?op)) EARLIEST = (Inr 4, scenario_A @ [[?op]])"
    by code_simp
  have h3: "append_circuit None (scenario_A @ [[?op]]) (Leaf (Op ?op)) EARLIEST
              = (Inr 5, scenario_A @ [[?op], [?op]])"
    by code_simp
  from earliest_twice_not_earlier[OF h1 h2 h3] h1 h2 h3 show ?thesis by blast
qed

section \<open>Length of a zipped circuit\<close>

lemma append_moment:
  "append_circuit None result (Leaf (Mom m)) EARLIEST =
     (Inr (int (length result) + 1), list_insert result (int (length result)) m)"
  by (simp add: append_circuit_def insert_circuit_def dev_validate_moment_def)

lemma zip_loop_length:
  "zip_loop circuits align n ks result = Inr r \<Longrightarrow> length r = length result + length ks"
proof (induction ks arbitrary: result)
  case Nil
  then show ?case by simp
next
  case (Cons k ks)
  then show ?case
    by (auto simp: append_moment length_list_insert split: sum.splits)
qed

lemma length_py_range: "length (py_range a b) = nat (b - a)"
  by (simp add: py_range_def)

lemma fold_max_int: "fold max (map (\<lambda>c. int (length c)) cs) (int x) = int (fold max (map length cs) x)"
  by (induction cs arbitrary: x) (simp_all add: max_def)

lemma py_max_default_lengths:
  "py_max_default (map (\<lambda>c. int (length c)) circuits) 0 =
     (if circuits = [] then 0 else int (Max (set (map length circuits))))"
proof (cases circuits)
  case Nil
  then show ?thesis by (simp add: py_max_default_def)
next
  case (Cons c cs)
  have "fold max (map length cs) (length c) = Max (set (map length (c # cs)))"
    using Max.set_eq_fold[of "length c" "map length cs"] by simp
  with Cons show ?thesis
    by (simp add: py_max_default_def fold_max_int)
qed

text \<open>
  C7: when \<open>zip\<close> succeeds, for every alignment, the result has as many moments as
  the longest input, and none for an empty tuple; for two circuits this is the maximum of
  the two lengths.
\<close>

theorem zip_length:
  assumes "zip_circuits circuits align = Inr result"
  shows "length result = (if circuits = [] then 0 else Max (set (map length circuits))) \<and>
         (\<forall>a b. circuits = [a, b] \<longrightarrow> length result = max (length a) (length b))"
proof -
  define n where "n = py_max_default (map (\<lambda>c. int (length c)) circuits) 0"
  have n: "n = (if circuits = [] then 0 else int (Max (set (map length circuits))))"
    unfolding n_def by (rule py_max_default_lengths)
  from assms have "zip_loop circuits align n (py_range 0 n) [] = Inr result"
    by (simp add: zip_circuits_def n_def Let_def)
  from zip_loop_length[OF this] have "length result = nat n"
    by (simp add: length_py_range)
  with n have main: "length result = (if circuits = [] then 0 else Max (set (map length circuits)))"
    by simp
  then show ?thesis by (auto simp: max.commute)
qed

theorem zip_length_witness:
  "zip_circuits [scenario_A, single_q2] RIGHT =
     Inr [[\<lparr>gate = 0, qubits = [0], control_keys = [], measurement_keys = []\<rparr>], [],
          [\<lparr>gate = 1, qubits = [0, 1], control_keys = [], measurement_keys = []\<rparr>,
           \<lparr>gate = 0, qubits = [2], control_keys = [], measurement_keys = []\<rparr>]] \<and>
   length [[\<lparr>gate = 0, qubits = [0], control_keys = [], measurement_keys = []\<rparr>], [],
          [\<lparr>gate = 1, qubits = [0, 1], control_keys = [], measurement_keys = []\<rparr>,
           \<lparr>gate = 0, qubits = [2], control_keys = [], measurement_keys = []\<rparr>]]
     = max (length scenario_A) (length single_q2)"
proof -
  have h: "zip_circuits [scenario_A, single_q2] RIGHT =
     Inr [[\<lparr>gate = 0, qubits = [0], control_keys = [], measurement_keys = []\<rparr>], [],
          [\<lparr>gate = 1, qubits = [0, 1], control_keys = [], measurement_keys = []\<rparr>,
           \<lparr>gate = 0, qubits = [2], control_keys = [], measurement_keys = []\<rparr>]]"
    by code_simp
  from zip_length[OF h] h show ?thesis by blast
qed

section \<open>Operations until blocked, from an empty frontier\<close>

text \<open>
  C10: with an empty start frontier, \<open>findall_operations_until_blocked\<close> returns the
  empty list for every circuit and every blocker predicate; the minimum of the frontier
  values, which does not exist, is never computed.
\<close>

theorem until_blocked_empty_frontier:
  "findall_operations_until_blocked ms [] is_blocker = Inr []"
  by (simp add: findall_operations_until_blocked_def)

theorem until_blocked_empty_frontier_witness:
  "findall_operations_until_blocked scenario_A [] (\<lambda>op. True) = Inr [] \<and>
   py_min (map snd ([] :: frontier)) = Inl ValueError"
  using until_blocked_empty_frontier[of scenario_A "\<lambda>op. True"]
  by (simp add: py_min_def)

section \<open>Tetris concatenation is not associative\<close>

text \<open>
  C8: \<open>tetris_concat\<close> is not associative. With the one-operation circuits \<open>A\<close> on qubit
  0 and \<open>B\<close> on qubit 1, concatenating \<open>A\<close> and \<open>B\<close> first and then \<open>A\<close> gives two
  moments with \<open>A\<close> and \<open>B\<close> in the first, whereas concatenating \<open>A\<close> with the
  concatenation of \<open>B\<close> and \<open>A\<close> gives two moments with only \<open>A\<close> in the first; the
  two results are different circuits.
\<close>

theorem tetris_concat_not_associative:
  "tetris_concat [circuit_A, circuit_B] LEFT = Inr [[H_a, H_b]] \<and>
   tetris_concat [[[H_a, H_b]], circuit_A] LEFT = Inr [[H_a, H_b], [H_a]] \<and>
   tetris_concat [circuit_B, circuit_A] LEFT = Inr [[H_b, H_a]] \<and>
   tetris_concat [circuit_A, [[H_b, H_a]]] LEFT = Inr [[H_a], [H_b, H_a]] \<and>
   \<not> circuit_eq [[H_a, H_b], [H_a]] [[H_a], [H_b, H_a]]"
  by code_simp

theorem tetris_concat_not_associative_witness:
  "(case tetris_concat [circuit_A, circuit_B] LEFT of
      Inl e \<Rightarrow> Inl e | Inr ab \<Rightarrow> tetris_concat [ab, circuit_A] LEFT)
     = Inr [[H_a, H_b], [H_a]] \<and>
   (case tetris_concat [circuit_B, circuit_A] LEFT of
      Inl e \<Rightarrow> Inl e | Inr ba \<Rightarrow> tetris_concat [circuit_A, ba] LEFT)
     = Inr [[H_a], [H_b, H_a]] \<and>
   [[H_a, H_b], [H_a]] \<noteq> [[H_a], [H_b, H_a]]"
proof -
  have "[H_a, H_b] \<noteq> [H_a]" by simp
  with tetris_concat_not_associative show ?thesis by simp
qed

section \<open>Atomicity of the batch edits\<close>

lemma commit_raised_keeps_self:
  "moments_ref self \<noteq> moments_ref cp \<Longrightarrow> raised (commit st self cp res validate) \<Longrightarrow>
     moments_after (commit st self cp res validate) = moments_of st self"
  by (auto simp: commit_def raised_def moments_after_def moments_of_def Let_def
      split: sum.splits if_splits)

lemma copy_fresh:
  "moments_ref self < next_ref st \<Longrightarrow> copy st self = (cp, st1) \<Longrightarrow>
     moments_ref self \<noteq> moments_ref cp \<and> moments_of st1 self = moments_of st self \<and>
     moments_of st1 cp = moments_of st self"
  by (auto simp: copy_def moments_of_def)

text \<open>
  C1: if \<open>batch_remove\<close>, \<open>batch_replace\<close> or \<open>batch_insert\<close> raises, the moments of the
  circuit after the call are the moments before the call: every edit was made on the
  list of the copy, at another address of the store. The circuit's own list must be an
  allocated one.
\<close>

theorem batch_edits_atomic:
  assumes "moments_ref self < next_ref st"
  shows "(raised (batch_remove st self removals) \<longrightarrow>
            moments_after (batch_remove st self removals) = moments_of st self) \<and>
         (raised (batch_replace st self replacements) \<longrightarrow>
            moments_after (batch_replace st self replacements) = moments_of st self) \<and>
         (raised (batch_insert st self insertions) \<longrightarrow>
            moments_after (batch_insert st self insertions) = moments_of st self)"
proof -
  obtain cp st1 where c: "copy st self = (cp, st1)" by (cases "copy st self")
  from copy_fresh[OF assms c]
  have ne: "moments_ref self \<noteq> moments_ref cp" and same: "moments_of st1 self = moments_of st self"
    by simp_all
  show ?thesis
    using commit_raised_keeps_self[OF ne, of st1] same c
    by (simp add: batch_remove_def batch_replace_def batch_insert_def)
qed

theorem batch_edits_atomic_witness:
  "moments_ref self0 < next_ref store0 \<and>
   raised (batch_remove store0 self0 [(0, op_q0), (1, H_a)]) \<and>
   moments_after (batch_remove store0 self0 [(0, op_q0), (1, H_a)]) = scenario_A \<and>
   raised (batch_replace store0 self0 [(0, op_q0, H_b), (1, H_a, H_b)]) \<and>
   moments_after (batch_replace store0 self0 [(0, op_q0, H_b), (1, H_a, H_b)]) = scenario_A \<and>
   raised (batch_insert store0 self1 [(0, Leaf (Op H_b)), (1, Leaf (Op op_rejected))]) \<and>
   moments_after (batch_insert store0 self1 [(0, Leaf (Op H_b)), (1, Leaf (Op op_rejected))])
     = scenario_A \<and>
   lists (fst (snd (batch_insert store0 self1 [(0, Leaf (Op H_b)), (1, Leaf (Op op_rejected))]))) 1
     = [[op_q0, H_b], [], [op_q0_q1]]"
proof -
  have h0: "moments_ref self0 < next_ref store0" "moments_ref self1 < next_ref store0"
    by (simp_all add: self0_def self1_def store0_def)
  have m0: "moments_of store0 self0 = scenario_A" "moments_of store0 self1 = scenario_A"
    by (simp_all add: moments_of_def self0_def self1_def store0_def)
  have r1: "raised (batch_remove store0 self0 [(0, op_q0), (1, H_a)])"
    by code_simp
  have r2: "raised (batch_replace store0 self0 [(0, op_q0, H_b), (1, H_a, H_b)])"
    by code_simp
  have r3: "raised (batch_insert store0 self1 [(0, Leaf (Op H_b)), (1, Leaf (Op op_rejected))])"
    by code_simp
  have c3: "lists (fst (snd (batch_insert store0 self1
              [(0, Leaf (Op H_b)), (1, Leaf (Op op_rejected))]))) 1
            = [[op_q0, H_b], [], [op_q0_q1]]"
    by code_simp
  from batch_edits_atomic[OF h0(1), of "[(0, op_q0), (1, H_a)]" "[(0, op_q0, H_b), (1, H_a, H_b)]" "[]"]
    batch_edits_atomic[OF h0(2), of "[]" "[]" "[(0, Leaf (Op H_b)), (1, Leaf (Op op_rejected))]"]
    h0 m0 r1 r2 r3 c3
  show ?thesis by simp
qed

section \<open>Index drift and order of a batch insertion\<close>

lemma takeWhile_same_key_sorted:
  fixes key :: "'a \<Rightarrow> 'k::linorder"
  shows "sorted (map key (x # xs)) \<Longrightarrow>
     takeWhile (\<lambda>y. key y = key x) xs = filter (\<lambda>y. key y = key x) xs"
proof (induction xs)
  case Nil
  show ?case by simp
next
  case (Cons y ys)
  show ?case
  proof (cases "key y = key x")
    case True
    with Cons show ?thesis by simp
  next
    case False
    with Cons.prems have "\<forall>z \<in> set ys. key z \<noteq> key x" by fastforce
    then have "filter (\<lambda>y. key y = key x) ys = []" by (simp add: filter_empty_conv)
    with False show ?thesis by simp
  qed
qed

lemma dropWhile_same_key_sorted:
  fixes key :: "'a \<Rightarrow> 'k::linorder"
  shows "sorted (map key (x # xs)) \<Longrightarrow>
     dropWhile (\<lambda>y. key y = key x) xs = filter (\<lambda>y. key x < key y) xs"
proof (induction xs)
  case Nil
  show ?case by simp
next
  case (Cons y ys)
  show ?case
  proof (cases "key y = key x")
    case True
    with Cons show ?thesis by simp
  next
    case False
    with Cons.prems have "key x < key y" "\<forall>z \<in> set ys. key x < key z" by fastforce+
    then have "filter (\<lambda>y. key x < key y) ys = ys" by simp
    with False \<open>key x < key y\<close> show ?thesis by simp
  qed
qed

lemma group_until_different_sorted:
  fixes key :: "'a \<Rightarrow> 'k::linorder"
  shows "sorted (map key xs) \<Longrightarrow>
     sorted (map fst (group_until_different xs key val)) \<and>
     distinct (map fst (group_until_different xs key val)) \<and>
     fst ` set (group_until_different xs key val) = key ` set xs \<and>
     (\<forall>(k, vs) \<in> set (group_until_different xs key val).
         vs \<noteq> [] \<and> vs = map val (filter (\<lambda>y. key y = k) xs))"
proof (induction xs key val rule: group_until_different.induct)
  case (1 key val)
  show ?case by simp
next
  case (2 x xs key val)
  let ?rest = "dropWhile (\<lambda>y. key y = key x) xs"
  let ?g = "group_until_different ?rest key val"
  have tw: "takeWhile (\<lambda>y. key y = key x) xs = filter (\<lambda>y. key y = key x) xs"
    using "2.prems" by (rule takeWhile_same_key_sorted)
  have dw: "?rest = filter (\<lambda>y. key x < key y) xs"
    using "2.prems" by (rule dropWhile_same_key_sorted)
  have srt: "sorted (map key ?rest)"
    using "2.prems" by (simp add: dw sorted_filter)
  note ih = "2.IH"[OF srt]
  have keys: "fst ` set ?g = key ` {y \<in> set xs. key x < key y}"
    using ih by (simp add: dw)
  have above: "\<forall>k \<in> fst ` set ?g. key x < k" using keys by auto
  have le: "\<forall>y \<in> set xs. key x \<le> key y" using "2.prems" by simp
  have a: "sorted (map fst ((key x, map val (x # takeWhile (\<lambda>y. key y = key x) xs)) # ?g))"
    using ih above by (auto simp: less_imp_le)
  have b: "distinct (map fst ((key x, map val (x # takeWhile (\<lambda>y. key y = key x) xs)) # ?g))"
    using ih above by auto
  have c: "fst ` set ((key x, map val (x # takeWhile (\<lambda>y. key y = key x) xs)) # ?g)
             = key ` set (x # xs)"
  proof -
    have "key ` set xs \<subseteq> insert (key x) (key ` {y \<in> set xs. key x < key y})"
      using le by (auto simp: le_less)
    then show ?thesis using keys by auto
  qed
  have d: "vs \<noteq> [] \<and> vs = map val (filter (\<lambda>y. key y = k) (x # xs))"
    if "(k, vs) \<in> set ((key x, map val (x # takeWhile (\<lambda>y. key y = key x) xs)) # ?g)" for k vs
  proof (cases "(k, vs) = (key x, map val (x # takeWhile (\<lambda>y. key y = key x) xs))")
    case True
    then show ?thesis by (simp add: tw)
  next
    case False
    with that have mem: "(k, vs) \<in> set ?g" by auto
    with above have kx: "key x < k" by force
    from ih mem have "vs \<noteq> []" "vs = map val (filter (\<lambda>y. key y = k) ?rest)" by auto
    moreover have "filter (\<lambda>y. key y = k) ?rest = filter (\<lambda>y. key y = k) xs"
      using kx by (auto simp: dw intro: filter_cong)
    ultimately show ?thesis using kx by auto
  qed
  from a b c d show ?case by (simp only: group_until_different.simps) blast
qed

lemma batch_insert_loop_step:
  "\<exists>shift1 \<ge> shift.
     batch_insert_loop dev ((i, g) # groups) shift ms =
       (case insert_circuit dev ms (i + shift) (Tree (rev g)) EARLIEST of
          (Inl e, ms1) \<Rightarrow> (Inl e, ms1)
        | (Inr next_index, ms1) \<Rightarrow> batch_insert_loop dev groups shift1 ms1)"
proof (cases "insert_circuit dev ms (i + shift) (Tree (rev g)) EARLIEST")
  case (Pair r ms1)
  show ?thesis
  proof (cases r)
    case (Inl e)
    with Pair show ?thesis by (auto simp: Let_def)
  next
    case (Inr n)
    show ?thesis
    proof (cases "n > i + shift")
      case True
      with Pair Inr show ?thesis
        by (intro exI[of _ "shift + (n - (i + shift))"]) (simp add: Let_def)
    next
      case False
      with Pair Inr show ?thesis
        by (intro exI[of _ shift]) (simp add: Let_def)
    qed
  qed
qed

text \<open>
  C2, as stated, fails on the code. First, the loop of \<open>batch_insert\<close> moves the later
  target indices by the amount by which the index returned by \<open>insert\<close> exceeds the
  insertion index, not by the number of moments added: inserting \<open>X_q\<close> at index 2 of
  \<open>drift_circuit\<close> fills the existing moment 2 and adds no moment, yet the insertion at
  index 4 is made at index 5, behind \<open>Z_r\<close> instead of before it. Second, with the
  strategy EARLIEST a later-specified operation can end up behind an earlier-specified
  one of the same index: \<open>X_q\<close>, specified last, lands in moment 1 and \<open>Y_r\<close> in
  moment 0.
\<close>

theorem batch_insert_drift_counterexample:
  "insert_circuit None drift_circuit 2 (Tree [Leaf (Op X_q)]) EARLIEST
     = (Inr 3, [[], [X_q], [X_q], [], [Z_r]]) \<and>
   length [[], [X_q], [X_q], [], [Z_r]] = length drift_circuit \<and>
   moments_after (batch_insert (store_of drift_circuit) self0
       [(4, Leaf (Op Y_r)), (2, Leaf (Op X_q))])
     = [[], [X_q], [X_q], [], [Z_r], [Y_r]] \<and>
   snd (batch_insert_by_growth_loop None
          (group_until_different (sort_key fst [(4, Leaf (Op Y_r)), (2, Leaf (Op X_q))]) fst snd)
          0 drift_circuit)
     = [[], [X_q], [X_q], [Y_r], [Z_r]] \<and>
   moments_after (batch_insert (store_of [[op_q0]]) self0
       [(1, Leaf (Op Y_r)), (1, Leaf (Op X_q))])
     = [[op_q0, Y_r], [X_q]]"
  by code_simp

section \<open>The reachable frontier of a single qubit\<close>

lemma next_moment_unbounded:
  "next_moment_operating_on ms qs m None
     = Inr (first_moment_operating_on ms qs (py_range m (int (length ms))))"
  by (simp add: next_moment_operating_on_def)

lemma operation_at_of_has_op_at:
  assumes "has_op_at ms nm [r]"
  shows "\<exists>op. operation_at ms r nm = Some op \<and> r \<in> set (qubits op)"
proof -
  from assms have rng: "0 \<le> nm" "nm < int (length ms)" and
    ex: "\<exists>op \<in> set (ms ! nat nm). r \<in> set (qubits op)"
    by (auto simp: has_op_at_def operates_on_def)
  from ex have "find (\<lambda>op. r \<in> set (qubits op)) (ms ! nat nm) \<noteq> None"
    by (auto simp: find_None_iff)
  then obtain op where f: "find (\<lambda>op. r \<in> set (qubits op)) (ms ! nat nm) = Some op" by blast
  then have "r \<in> set (qubits op)" by (auto simp: find_Some_iff)
  with f rng show ?thesis by (simp add: operation_at_def moment_operation_at_def)
qed

lemma enqueue_member: "(p, x) \<in> set (enqueue entries p x)"
  by (simp add: enqueue_def)

lemma enqueue_twice: "enqueue (enqueue entries p x) p x = enqueue entries p x"
  using enqueue_member[of p x entries] by (subst enqueue_def) simp

lemma enqueue_next_idem:
  "enqueue_next ms sf q m st = Inr st1 \<Longrightarrow> enqueue_next ms sf q m st1 = Inr st1"
  by (auto simp: enqueue_next_def enqueue_twice split: sum.splits option.splits)

lemma enqueue_next_all_same:
  "es \<noteq> [] \<Longrightarrow> \<forall>e \<in> set es. e = (q, m) \<Longrightarrow>
     enqueue_next_all ms sf es st = enqueue_next ms sf q m st"
proof (induction es arbitrary: st)
  case Nil
  then show ?case by simp
next
  case (Cons e es)
  then have e: "e = (q, m)" by simp
  show ?case
  proof (cases "enqueue_next ms sf q m st")
    case (Inl err)
    with e show ?thesis by simp
  next
    case (Inr st1)
    show ?thesis
    proof (cases "es = []")
      case True
      with e Inr show ?thesis by simp
    next
      case False
      from Cons.IH[OF False, of st1] Cons.prems(2)
      have "enqueue_next_all ms sf es st1 = enqueue_next ms sf q m st1" by simp
      with e Inr enqueue_next_idem[OF Inr] show ?thesis by simp
    qed
  qed
qed

lemma fold_activate_single:
  "s \<le> cm \<Longrightarrow> ends r = None \<Longrightarrow>
     fold (activate [(r, s)] cm ends) qs act = (if r \<in> set qs then act \<union> {r} else act)"
  by (induction qs arbitrary: act) (auto simp: activate_def)

lemma close_qubit_keeps:
  assumes "queue st = []" "active st \<subseteq> {r}" "r \<notin> active st \<longrightarrow> end_frontier st r = Some cm"
  shows "queue (close_qubit cm q st) = [] \<and> active (close_qubit cm q st) \<subseteq> {r} \<and>
         (r \<notin> active (close_qubit cm q st) \<longrightarrow> end_frontier (close_qubit cm q st) r = Some cm) \<and>
         (q = r \<longrightarrow> r \<notin> active (close_qubit cm q st))"
  using assms by (auto simp: close_qubit_def)

lemma fold_close_qubit_single:
  assumes "queue st = []" "active st \<subseteq> {r}" "r \<notin> active st \<longrightarrow> end_frontier st r = Some cm"
  shows "queue (fold (close_qubit cm) qs st) = [] \<and>
         active (fold (close_qubit cm) qs st) \<subseteq> {r} \<and>
         (r \<notin> active (fold (close_qubit cm) qs st) \<longrightarrow>
            end_frontier (fold (close_qubit cm) qs st) r = Some cm) \<and>
         (r \<in> set qs \<longrightarrow> r \<notin> active (fold (close_qubit cm) qs st))"
  using assms
proof (induction qs arbitrary: st)
  case Nil
  then show ?case by simp
next
  case (Cons q qs)
  note k = close_qubit_keeps[OF Cons.prems, of q]
  from k have k1: "queue (close_qubit cm q st) = []" "active (close_qubit cm q st) \<subseteq> {r}"
    "r \<notin> active (close_qubit cm q st) \<longrightarrow> end_frontier (close_qubit cm q st) r = Some cm"
    by simp_all
  note ih = Cons.IH[OF k1]
  have stay: "r \<notin> active (close_qubit cm q st) \<Longrightarrow>
      r \<notin> active (fold (close_qubit cm) qs (close_qubit cm q st))"
  proof (induction qs arbitrary: st q)
    case Nil
    then show ?case by simp
  next
    case (Cons q' qs)
    have "r \<notin> active (close_qubit cm q' (close_qubit cm q st))"
      using Cons.prems by (auto simp: close_qubit_def)
    from Cons.IH[OF this] show ?case by simp
  qed
  show ?case using ih k stay by auto
qed

lemma frontier_loop_done:
  "queue st = [] \<Longrightarrow> frontier_loop ms sf isb st = Some (Inr (end_frontier st))"
  by (subst frontier_loop.simps) simp

lemma frontier_single:
  assumes "s \<le> m" "queue st = []" "active st \<subseteq> {r}" "end_frontier st r = None"
  shows "\<exists>st1 ef e. enqueue_next ms [(r, s)] r m st = Inr st1 \<and>
           frontier_loop ms [(r, s)] (\<lambda>op. False) st1 = Some (Inr ef) \<and>
           ef r = Some e \<and> s \<le> e"
  using assms
proof (induction "nat (int (length ms) - m)" arbitrary: m st rule: less_induct)
  case less
  let ?sf = "[(r, s)]"
  show ?case
  proof (cases "first_moment_operating_on ms [r] (py_range m (int (length ms)))")
    case None
    let ?st1 = "st\<lparr>end_frontier := (end_frontier st)(r \<mapsto> max (int (length ms)) s),
                   active := active st - {r}\<rparr>"
    have a: "enqueue_next ms ?sf r m st = Inr ?st1"
      by (simp add: enqueue_next_def next_moment_unbounded None)
    have b: "frontier_loop ms ?sf (\<lambda>op. False) ?st1 = Some (Inr (end_frontier ?st1))"
      using less.prems(2) by (intro frontier_loop_done) simp
    from a b show ?thesis by auto
  next
    case (Some nm)
    from first_moment_operating_on_Some[OF Some]
    have nm: "m \<le> nm" "nm < int (length ms)" "has_op_at ms nm [r]"
      by (auto simp: set_py_range)
    from operation_at_of_has_op_at[OF nm(3)] obtain op where
      op: "operation_at ms r nm = Some op" "r \<in> set (qubits op)" by blast
    let ?st1 = "st\<lparr>queue := [(nm, op)]\<rparr>"
    have a: "enqueue_next ms ?sf r m st = Inr ?st1"
      using less.prems(2) by (simp add: enqueue_next_def next_moment_unbounded Some op enqueue_def)
    have unq: "st\<lparr>queue := []\<rparr> = st" using less.prems(2) by simp
    let ?st2 = "st\<lparr>active := {r}\<rparr>"
    have act: "fold (activate ?sf nm (end_frontier st)) (qubits op) (active st) = {r}"
      using fold_activate_single[of s nm "end_frontier st" r "qubits op" "active st"]
        less.prems nm(1) op(2) by auto
    show ?thesis
    proof (cases "set (qubits op) \<subseteq> {r}")
      case True
      have ne: "map (\<lambda>q. (q, nm + 1)) (qubits op) \<noteq> []" using op(2) by auto
      have all: "\<forall>e \<in> set (map (\<lambda>q. (q, nm + 1)) (qubits op)). e = (r, nm + 1)"
        using True by auto
      have step: "frontier_step ms ?sf (\<lambda>op. False) nm op st = enqueue_next ms ?sf r (nm + 1) ?st2"
        using True act enqueue_next_all_same[OF ne all]
        by (simp add: frontier_step_def Let_def)
      have "nat (int (length ms) - (nm + 1)) < nat (int (length ms) - m)"
        using nm by simp
      from less.hyps[OF this, of ?st2] less.prems nm(1)
      obtain st3 ef e where ih: "enqueue_next ms ?sf r (nm + 1) ?st2 = Inr st3"
        "frontier_loop ms ?sf (\<lambda>op. False) st3 = Some (Inr ef)" "ef r = Some e" "s \<le> e"
        by auto
      have "frontier_loop ms ?sf (\<lambda>op. False) ?st1 = Some (Inr ef)"
        by (subst frontier_loop.simps) (simp add: unq step ih)
      with a ih show ?thesis by blast
    next
      case False
      let ?st3 = "fold (close_qubit nm) (qubits op) ?st2"
      have step: "frontier_step ms ?sf (\<lambda>op. False) nm op st = Inr ?st3"
        using False act by (simp add: frontier_step_def Let_def)
      from fold_close_qubit_single[of ?st2 r nm "qubits op"] less.prems(2) op(2)
      have c: "queue ?st3 = []" "end_frontier ?st3 r = Some nm" by auto
      have "frontier_loop ms ?sf (\<lambda>op. False) ?st1 = Some (Inr (end_frontier ?st3))"
        by (subst frontier_loop.simps) (simp add: unq step frontier_loop_done[OF c(1)])
      with a c(2) nm(1) less.prems(1) show ?thesis by auto
    qed
  qed
qed

text \<open>
  C4: started from the frontier that maps the single qubit \<open>r\<close> to \<open>s\<close>, with a blocker
  predicate that is always false, \<open>reachable_frontier_from\<close> returns (its loop ends
  without an error) an end frontier that maps \<open>r\<close> to a value of at least \<open>s\<close>.
\<close>

theorem reachable_frontier_monotone:
  "\<exists>ef e. reachable_frontier_from ms [(r, s)] (\<lambda>op. False) = Some (Inr ef) \<and>
           ef r = Some e \<and> s \<le> e"
proof -
  let ?init = "\<lparr>active = {}, end_frontier = Map.empty, queue = []\<rparr>"
  from frontier_single[of s s ?init r ms]
  obtain st1 ef e where "enqueue_next ms [(r, s)] r s ?init = Inr st1"
    "frontier_loop ms [(r, s)] (\<lambda>op. False) st1 = Some (Inr ef)" "ef r = Some e" "s \<le> e"
    by auto
  then show ?thesis by (auto simp: reachable_frontier_from_def)
qed

theorem reachable_frontier_monotone_witness:
  "(\<exists>ef e. reachable_frontier_from scenario_A [(1, 7)] (\<lambda>op. False) = Some (Inr ef) \<and>
           ef 1 = Some e \<and> 7 \<le> e) \<and>
   (case reachable_frontier_from scenario_A [(0, 0)] (\<lambda>op. False) of
      Some (Inr ef) \<Rightarrow> ef 0 | _ \<Rightarrow> None) = Some 2"
proof -
  have a: "(case reachable_frontier_from scenario_A [(0, 0)] (\<lambda>op. False) of
      Some (Inr ef) \<Rightarrow> ef 0 | _ \<Rightarrow> None) = Some 2"
    by code_simp
  from reachable_frontier_monotone[of scenario_A 1 7] a show ?thesis by (intro conjI)
qed

section \<open>Operations that share a qubit keep their insertion order\<close>

lemma list_insert_in_range:
  "0 \<le> k \<Longrightarrow> k \<le> int (length ms) \<Longrightarrow>
     list_insert ms k m = take (nat k) ms @ m # drop (nat k) ms"
  by (simp add: list_insert_def Let_def min_def)

lemma list_insert_nth_below:
  assumes "0 \<le> k" "k \<le> int (length ms)" "int pa < k"
  shows "list_insert ms k m ! pa = ms ! pa"
proof -
  have "pa < nat k" "nat k \<le> length ms" using assms by linarith+
  then show ?thesis using assms by (simp add: list_insert_in_range nth_append)
qed

lemma list_insert_nth_at:
  "0 \<le> k \<Longrightarrow> k \<le> int (length ms) \<Longrightarrow> list_insert ms k m ! nat k = m"
  by (simp add: list_insert_in_range nth_append)

lemma list_insert_nth_above:
  assumes "0 \<le> k" "k \<le> int (length ms)" "k \<le> int pa" "pa < length ms"
  shows "list_insert ms k m ! Suc pa = ms ! pa"
proof -
  have le: "nat k \<le> pa" "nat k \<le> length ms" using assms by linarith+
  then have "\<not> Suc pa < nat k" "Suc pa - nat k = Suc (pa - nat k)" by linarith+
  then show ?thesis using assms le by (simp add: list_insert_in_range nth_append)
qed

lemma ordered_in_list_insert:
  assumes k: "0 \<le> k" "k \<le> int (length ms)" and o: "ordered_in ms a b"
  shows "ordered_in (list_insert ms k m) a b"
proof -
  from o obtain pa pb where p: "pa < pb" "pb < length ms" "a \<in> set (ms ! pa)" "b \<in> set (ms ! pb)"
    by (auto simp: ordered_in_def)
  let ?f = "\<lambda>i. if int i < k then i else Suc i"
  have nth: "list_insert ms k m ! ?f i = ms ! i" if "i < length ms" for i
    using that k by (simp add: list_insert_nth_below list_insert_nth_above)
  have "?f pa < ?f pb" using p(1) by auto
  moreover have "?f pb < length (list_insert ms k m)" using p(2) by (simp add: length_list_insert)
  moreover have "a \<in> set (list_insert ms k m ! ?f pa)" using nth[of pa] p by simp
  moreover have "b \<in> set (list_insert ms k m ! ?f pb)" using nth[of pb] p by simp
  ultimately show ?thesis unfolding ordered_in_def by blast
qed

lemma ordered_in_grows:
  assumes "ordered_in ms a b" "length ms \<le> length ms'"
    "\<And>i. i < length ms \<Longrightarrow> set (ms ! i) \<subseteq> set (ms' ! i)"
  shows "ordered_in ms' a b"
proof -
  from assms(1) obtain pa pb where p: "pa < pb" "pb < length ms" "a \<in> set (ms ! pa)" "b \<in> set (ms ! pb)"
    by (auto simp: ordered_in_def)
  then have "a \<in> set (ms' ! pa)" "b \<in> set (ms' ! pb)" "pb < length ms'"
    using assms(2) assms(3)[of pa] assms(3)[of pb] by auto
  with p(1) show ?thesis unfolding ordered_in_def by blast
qed

lemma pick_shape:
  assumes k: "0 \<le> k" "k \<le> int (length ms)"
    and pick: "pick_or_create_inserted_op_moment_index dev ms k op strategy = (Inr p, ms1)"
  shows "(ms1 = list_insert ms k [] \<and> p = k) \<or>
         (ms1 = ms \<and> p = k - 1 \<and> 0 \<le> p) \<or>
         (ms1 = ms \<and> 0 \<le> p \<and> p \<le> k \<and> (\<forall>i. p \<le> i \<and> i < k \<longrightarrow> \<not> blocked_by op (ms ! nat i)))"
proof -
  have new: "pick_NEW ms k = (Inr p, ms1) \<Longrightarrow> ms1 = list_insert ms k [] \<and> p = k"
    by (auto simp: pick_NEW_def)
  have inline: "pick_INLINE dev ms k op = (Inr p, ms1) \<Longrightarrow>
      (ms1 = list_insert ms k [] \<and> p = k) \<or> (ms1 = ms \<and> p = k - 1 \<and> 0 \<le> p)"
    using new by (auto simp: pick_INLINE_def split: if_splits)
  have earliest: "pick_EARLIEST dev ms k op = (Inr p, ms1) \<Longrightarrow> ?thesis"
  proof (cases "can_add_op_at dev ms k op")
    case False
    assume "pick_EARLIEST dev ms k op = (Inr p, ms1)"
    with False have "pick_INLINE dev ms k op = (Inr p, ms1)" by (simp add: pick_EARLIEST_def)
    from inline[OF this] show ?thesis by blast
  next
    case True
    assume "pick_EARLIEST dev ms k op = (Inr p, ms1)"
    with True have l: "prev_moment_available_loop dev ms op k k = Inr p" and m: "ms1 = ms"
      by (auto simp: pick_EARLIEST_def prev_moment_available_def split: sum.splits)
    from prev_loop_reachable[OF k(2) l] k(1) m show ?thesis by auto
  qed
  show ?thesis
  proof (cases strategy)
    case NEW
    with pick new show ?thesis by (simp add: pick_or_create_inserted_op_moment_index_def)
  next
    case NEW_THEN_INLINE
    with pick new show ?thesis by (simp add: pick_or_create_inserted_op_moment_index_def)
  next
    case INLINE
    with pick have "pick_INLINE dev ms k op = (Inr p, ms1)"
      by (simp add: pick_or_create_inserted_op_moment_index_def)
    from inline[OF this] show ?thesis by blast
  next
    case EARLIEST
    with pick have "pick_EARLIEST dev ms k op = (Inr p, ms1)"
      by (simp add: pick_or_create_inserted_op_moment_index_def)
    from earliest[OF this] show ?thesis .
  next
    case UNRECOGNIZED
    with pick show ?thesis by (simp add: pick_or_create_inserted_op_moment_index_def)
  qed
qed


lemma operates_on_shares:
  "a \<in> set m \<Longrightarrow> shares_qubit a op \<Longrightarrow> operates_on m (qubits op)"
  by (auto simp: operates_on_def shares_qubit_def)

lemma pad_update_grows:
  fixes ms1 :: "moment list" and p :: int and op :: operation
  assumes "0 \<le> p"
    and ms2_def: "ms2 = ms1 @ replicate (nat (p + 1 - int (length ms1))) []"
    and ms3_def: "ms3 = ms2[nat p := ms2 ! nat p @ [op]]"
  shows "length ms1 \<le> length ms3" "nat p < length ms3" "op \<in> set (ms3 ! nat p)"
    "\<And>i. i < length ms1 \<Longrightarrow> set (ms1 ! i) \<subseteq> set (ms3 ! i)"
    "p < int (length ms1) \<Longrightarrow> ms2 = ms1"
    "int (length ms3) = max (int (length ms1)) (p + 1)"
proof -
  have l2: "nat p < length ms2" "length ms1 \<le> length ms2"
    unfolding ms2_def using assms(1) by auto
  show "length ms1 \<le> length ms3" "nat p < length ms3" using l2 by (simp_all add: ms3_def)
  show "op \<in> set (ms3 ! nat p)" using l2 by (simp add: ms3_def)
  show "set (ms1 ! i) \<subseteq> set (ms3 ! i)" if "i < length ms1" for i
  proof -
    have "ms2 ! i = ms1 ! i" using that by (simp add: ms2_def nth_append)
    then show ?thesis using l2 that by (cases "i = nat p") (auto simp: ms3_def)
  qed
  show "ms2 = ms1" if "p < int (length ms1)" using that by (simp add: ms2_def)
  show "int (length ms3) = max (int (length ms1)) (p + 1)"
    using assms(1) by (auto simp: ms3_def ms2_def)
qed

lemma insert_loop_Op_step:
  assumes k: "0 \<le> k" "k \<le> int (length ms)"
    and run: "insert_loop dev (Op op # rest) strategy k ms = (Inr kf, msf)"
  shows "\<exists>p ms3 strategy1.
      insert_loop dev rest strategy1 (max k (p + 1)) ms3 = (Inr kf, msf) \<and>
      0 \<le> max k (p + 1) \<and> max k (p + 1) \<le> int (length ms3) \<and>
      nat p < length ms3 \<and> int (nat p) < max k (p + 1) \<and> op \<in> set (ms3 ! nat p) \<and>
      (\<forall>pa. int pa < k \<and> pa < length ms \<longrightarrow> pa < length ms3 \<and> set (ms ! pa) \<subseteq> set (ms3 ! pa)) \<and>
      (\<forall>pa a. int pa < k \<and> pa < length ms \<and> a \<in> set (ms ! pa) \<and> shares_qubit a op
          \<longrightarrow> pa < nat p) \<and>
      (\<forall>a b. ordered_in ms a b \<longrightarrow> ordered_in ms3 a b)"
proof -
  obtain r ms1 where pick: "pick_or_create_inserted_op_moment_index dev ms k op strategy = (r, ms1)"
    by (cases "pick_or_create_inserted_op_moment_index dev ms k op strategy")
  from run pick obtain p where r: "r = Inr p" by (cases r) auto
  note pick = pick[unfolded r]
  from pick_bounds[OF k, of dev op strategy] pick
  have pb: "0 \<le> p" "p \<le> k" "length ms \<le> length ms1" by (auto simp: pick_ok_def)
  define ms2 where "ms2 = ms1 @ replicate (nat (p + 1 - int (length ms1))) []"
  define ms3 where "ms3 = ms2[nat p := ms2 ! nat p @ [op]]"
  note g = pad_update_grows[OF pb(1) ms2_def ms3_def]
  have l2: "p < int (length ms2)" unfolding ms2_def using pb(1) by auto
  have sub: "subscript ms2 p = Inr (nat p)" using pb(1) l2 by (simp add: subscript_in_range)
  from run pick sub
  have wo: "\<not> operates_on (ms2 ! nat p) (qubits op)"
    and cont: "insert_loop dev rest (if strategy = NEW_THEN_INLINE then INLINE else strategy)
                 (max k (p + 1)) ms3 = (Inr kf, msf)"
    by (auto simp: Let_def ms2_def[symmetric] ms3_def with_operation_def
        split: sum.splits if_splits)
  have kmax: "0 \<le> max k (p + 1)" "max k (p + 1) \<le> int (length ms3)"
    "int (nat p) < max k (p + 1)"
    using k pb g(6) by auto
  from pick_shape[OF k pick]
  consider (new) "ms1 = list_insert ms k []" "p = k"
    | (same) "ms1 = ms" "p = k - 1 \<or> (\<forall>i. p \<le> i \<and> i < k \<longrightarrow> \<not> blocked_by op (ms ! nat i))"
    by blast
  then have props:
     "(\<forall>pa. int pa < k \<and> pa < length ms \<longrightarrow> pa < length ms3 \<and> set (ms ! pa) \<subseteq> set (ms3 ! pa)) \<and>
      (\<forall>pa a. int pa < k \<and> pa < length ms \<and> a \<in> set (ms ! pa) \<and> shares_qubit a op
          \<longrightarrow> pa < nat p) \<and>
      (\<forall>a b. ordered_in ms a b \<longrightarrow> ordered_in ms3 a b)"
  proof cases
    case new
    have keep: "pa < length ms3 \<and> set (ms ! pa) \<subseteq> set (ms3 ! pa)"
      if "int pa < k \<and> pa < length ms" for pa
    proof -
      have "ms1 ! pa = ms ! pa" using that k new by (simp add: list_insert_nth_below)
      moreover have "pa < length ms1" using that pb(3) by simp
      ultimately show ?thesis using g(1) g(4)[of pa] by auto
    qed
    have above: "pa < nat p" if "int pa < k" for pa using that new(2) by simp
    have ord: "ordered_in ms3 a b" if "ordered_in ms a b" for a b
    proof -
      from ordered_in_list_insert[OF k that, of "[]"] new
      have "ordered_in ms1 a b" by simp
      from ordered_in_grows[OF this g(1) g(4)] show ?thesis by simp
    qed
    from keep above ord show ?thesis by blast
  next
    case same
    have keep: "pa < length ms3 \<and> set (ms ! pa) \<subseteq> set (ms3 ! pa)"
      if "int pa < k \<and> pa < length ms" for pa
      using that same(1) g(1) g(4)[of pa] by auto
    have above: "pa < nat p"
      if h: "int pa < k \<and> pa < length ms \<and> a \<in> set (ms ! pa) \<and> shares_qubit a op" for pa a
    proof (rule ccontr)
      assume "\<not> pa < nat p"
      then have le: "p \<le> int pa" using pb(1) by linarith
      from h have opon: "operates_on (ms ! pa) (qubits op)" by (auto intro: operates_on_shares)
      from same(2) show False
      proof
        assume "p = k - 1"
        with le h have e: "nat p = pa" "p < int (length ms1)" using same(1) by auto
        from g(5)[OF e(2)] same(1) e(1) wo opon show False by simp
      next
        assume "\<forall>i. p \<le> i \<and> i < k \<longrightarrow> \<not> blocked_by op (ms ! nat i)"
        with le h have "\<not> blocked_by op (ms ! nat (int pa))" by blast
        with opon show False by (simp add: blocked_by_def)
      qed
    qed
    have ord: "ordered_in ms3 a b" if "ordered_in ms a b" for a b
      using ordered_in_grows[OF _ g(1) g(4)] that same(1) by simp
    from keep above ord show ?thesis by blast
  qed
  from cont kmax g(2) g(3) props show ?thesis by blast
qed

lemma insert_loop_Mom_step:
  assumes k: "0 \<le> k" "k \<le> int (length ms)"
  shows "insert_loop dev (Mom m # rest) strategy k ms
           = insert_loop dev rest strategy (k + 1) (list_insert ms k m)"
    and "0 \<le> k + 1" and "k + 1 \<le> int (length (list_insert ms k m))"
    and "nat k < length (list_insert ms k m)" and "list_insert ms k m ! nat k = m"
    and "\<forall>pa. int pa < k \<longrightarrow> list_insert ms k m ! pa = ms ! pa"
    and "\<forall>a b. ordered_in ms a b \<longrightarrow> ordered_in (list_insert ms k m) a b"
  using k list_insert_nth_at[OF k] list_insert_nth_below[OF k] ordered_in_list_insert[OF k]
  by (simp_all add: length_list_insert)

lemma insert_loop_keeps_order:
  "0 \<le> k \<Longrightarrow> k \<le> int (length ms) \<Longrightarrow>
   insert_loop dev items strategy k ms = (Inr kf, msf) \<Longrightarrow>
   ordered_in ms a b \<Longrightarrow> ordered_in msf a b"
proof (induction items arbitrary: strategy k ms)
  case Nil
  then show ?case by simp
next
  case (Cons x rest)
  show ?case
  proof (cases x)
    case (Mom m)
    note st = insert_loop_Mom_step(1)[OF Cons.prems(1,2), of dev m "rest" strategy]
      insert_loop_Mom_step(2)[OF Cons.prems(1,2)]
      insert_loop_Mom_step(3)[OF Cons.prems(1,2), of m]
      insert_loop_Mom_step(4)[OF Cons.prems(1,2), of m]
      insert_loop_Mom_step(5)[OF Cons.prems(1,2), of m]
      insert_loop_Mom_step(6)[OF Cons.prems(1,2), of m]
      insert_loop_Mom_step(7)[OF Cons.prems(1,2), of m]
    from Cons.prems(3) Mom st(1)
    have "insert_loop dev rest strategy (k + 1) (list_insert ms k m) = (Inr kf, msf)" by simp
    from st(7) Cons.prems(4) have "ordered_in (list_insert ms k m) a b" by blast
    from Cons.IH[OF st(2) st(3) \<open>insert_loop dev rest strategy (k + 1) (list_insert ms k m) = (Inr kf, msf)\<close> this]
    show ?thesis .
  next
    case (Op op)
    from insert_loop_Op_step[OF Cons.prems(1,2) Cons.prems(3)[unfolded Op]]
    obtain p ms3 strategy1 where
      "insert_loop dev rest strategy1 (max k (p + 1)) ms3 = (Inr kf, msf)"
      "0 \<le> max k (p + 1)" "max k (p + 1) \<le> int (length ms3)"
      "\<forall>a b. ordered_in ms a b \<longrightarrow> ordered_in ms3 a b"
      by blast
    with Cons.IH[of "max k (p + 1)" ms3 strategy1] Cons.prems(4) show ?thesis by blast
  qed
qed

lemma insert_loop_after_placed:
  "0 \<le> k \<Longrightarrow> k \<le> int (length ms) \<Longrightarrow>
   insert_loop dev items strategy k ms = (Inr kf, msf) \<Longrightarrow>
   pa < length ms \<Longrightarrow> int pa < k \<Longrightarrow> a \<in> set (ms ! pa) \<Longrightarrow>
   y \<in> set items \<Longrightarrow> b \<in> set (item_ops y) \<Longrightarrow> shares_qubit a b \<Longrightarrow>
   ordered_in msf a b"
proof (induction items arbitrary: strategy k ms)
  case Nil
  then show ?case by simp
next
  case (Cons x rest)
  show ?case
  proof (cases x)
    case (Mom m)
    note st = insert_loop_Mom_step(1)[OF Cons.prems(1,2), of dev m "rest" strategy]
      insert_loop_Mom_step(2)[OF Cons.prems(1,2)]
      insert_loop_Mom_step(3)[OF Cons.prems(1,2), of m]
      insert_loop_Mom_step(4)[OF Cons.prems(1,2), of m]
      insert_loop_Mom_step(5)[OF Cons.prems(1,2), of m]
      insert_loop_Mom_step(6)[OF Cons.prems(1,2), of m]
      insert_loop_Mom_step(7)[OF Cons.prems(1,2), of m]
    from Cons.prems(3) Mom st(1)
    have run: "insert_loop dev rest strategy (k + 1) (list_insert ms k m) = (Inr kf, msf)" by simp
    have a': "pa < length (list_insert ms k m)" "int pa < k + 1"
      "a \<in> set (list_insert ms k m ! pa)"
      using Cons.prems(4,5,6) st(6) by (simp_all add: length_list_insert)
    show ?thesis
    proof (cases "b \<in> set m")
      case True
      have "pa < nat k" using Cons.prems(5) by linarith
      with True st(4) st(5) a'(3) have "ordered_in (list_insert ms k m) a b"
        unfolding ordered_in_def by (intro exI[of _ pa] exI[of _ "nat k"]) simp
      from insert_loop_keeps_order[OF st(2) st(3) run this] show ?thesis .
    next
      case False
      with Cons.prems(7,8) Mom have "y \<in> set rest" by auto
      from Cons.IH[OF st(2) st(3) run a' this Cons.prems(8,9)] show ?thesis .
    qed
  next
    case (Op op)
    from insert_loop_Op_step[OF Cons.prems(1,2) Cons.prems(3)[unfolded Op]]
    obtain p ms3 strategy1 where s:
      "insert_loop dev rest strategy1 (max k (p + 1)) ms3 = (Inr kf, msf)"
      "0 \<le> max k (p + 1)" "max k (p + 1) \<le> int (length ms3)"
      "nat p < length ms3" "op \<in> set (ms3 ! nat p)"
      "\<forall>pa. int pa < k \<and> pa < length ms \<longrightarrow> pa < length ms3 \<and> set (ms ! pa) \<subseteq> set (ms3 ! pa)"
      "\<forall>pa a. int pa < k \<and> pa < length ms \<and> a \<in> set (ms ! pa) \<and> shares_qubit a op
          \<longrightarrow> pa < nat p"
      by (elim exE conjE) blast
    have a': "pa < length ms3" "int pa < max k (p + 1)" "a \<in> set (ms3 ! pa)"
      using s(6) Cons.prems(4,5,6) by auto
    show ?thesis
    proof (cases "b = op")
      case True
      with s(7) Cons.prems(4,5,6,9) have "pa < nat p" by blast
      with True s(4) s(5) a'(3) have "ordered_in ms3 a b"
        unfolding ordered_in_def by (intro exI[of _ pa] exI[of _ "nat p"]) simp
      from insert_loop_keeps_order[OF s(2) s(3) s(1) this] show ?thesis .
    next
      case False
      with Cons.prems(7,8) Op have "y \<in> set rest" by auto
      from Cons.IH[OF s(2) s(3) s(1) a' this Cons.prems(8,9)] show ?thesis .
    qed
  qed
qed

lemma insert_loop_orders:
  "0 \<le> k \<Longrightarrow> k \<le> int (length ms) \<Longrightarrow>
   insert_loop dev (pre @ x # rest) strategy k ms = (Inr kf, msf) \<Longrightarrow>
   a \<in> set (item_ops x) \<Longrightarrow> y \<in> set rest \<Longrightarrow> b \<in> set (item_ops y) \<Longrightarrow>
   shares_qubit a b \<Longrightarrow> ordered_in msf a b"
proof (induction pre arbitrary: strategy k ms)
  case Nil
  show ?case
  proof (cases x)
    case (Mom m)
    note st = insert_loop_Mom_step(1)[OF Nil.prems(1,2), of dev m "rest" strategy]
      insert_loop_Mom_step(2)[OF Nil.prems(1,2)]
      insert_loop_Mom_step(3)[OF Nil.prems(1,2), of m]
      insert_loop_Mom_step(4)[OF Nil.prems(1,2), of m]
      insert_loop_Mom_step(5)[OF Nil.prems(1,2), of m]
      insert_loop_Mom_step(6)[OF Nil.prems(1,2), of m]
      insert_loop_Mom_step(7)[OF Nil.prems(1,2), of m]
    from Nil.prems(3) Mom st(1)
    have run: "insert_loop dev rest strategy (k + 1) (list_insert ms k m) = (Inr kf, msf)" by simp
    have "int (nat k) < k + 1" "a \<in> set (list_insert ms k m ! nat k)"
      using Nil.prems(1,4) Mom st(5) by simp_all
    from insert_loop_after_placed[OF st(2) st(3) run st(4) this Nil.prems(5,6,7)]
    show ?thesis .
  next
    case (Op op)
    have run: "insert_loop dev (Op op # rest) strategy k ms = (Inr kf, msf)"
      using Nil.prems(3) Op by (simp only: append_Nil)
    from insert_loop_Op_step[OF Nil.prems(1,2) run]
    obtain p ms3 strategy1 where s:
      "insert_loop dev rest strategy1 (max k (p + 1)) ms3 = (Inr kf, msf)"
      "0 \<le> max k (p + 1)" "max k (p + 1) \<le> int (length ms3)"
      "nat p < length ms3" "int (nat p) < max k (p + 1)" "op \<in> set (ms3 ! nat p)"
      by (elim exE conjE) blast
    have "a \<in> set (ms3 ! nat p)" using Nil.prems(4) Op s(6) by simp
    from insert_loop_after_placed[OF s(2) s(3) s(1) s(4) s(5) this Nil.prems(5,6,7)]
    show ?thesis .
  qed
next
  case (Cons z pre)
  show ?case
  proof (cases z)
    case (Mom m)
    note st = insert_loop_Mom_step(1)[OF Cons.prems(1,2), of dev m "pre @ x # rest" strategy]
      insert_loop_Mom_step(2)[OF Cons.prems(1,2)]
      insert_loop_Mom_step(3)[OF Cons.prems(1,2), of m]
      insert_loop_Mom_step(4)[OF Cons.prems(1,2), of m]
      insert_loop_Mom_step(5)[OF Cons.prems(1,2), of m]
      insert_loop_Mom_step(6)[OF Cons.prems(1,2), of m]
      insert_loop_Mom_step(7)[OF Cons.prems(1,2), of m]
    from Cons.prems(3) Mom st(1)
    have "insert_loop dev (pre @ x # rest) strategy (k + 1) (list_insert ms k m) = (Inr kf, msf)"
      by simp
    from Cons.IH[OF st(2) st(3) this Cons.prems(4,5,6,7)] show ?thesis .
  next
    case (Op op)
    have run: "insert_loop dev (Op op # pre @ x # rest) strategy k ms = (Inr kf, msf)"
      using Cons.prems(3) Op by (simp only: append_Cons)
    from insert_loop_Op_step[OF Cons.prems(1,2) run]
    obtain p ms3 strategy1 where s:
      "insert_loop dev (pre @ x # rest) strategy1 (max k (p + 1)) ms3 = (Inr kf, msf)"
      "0 \<le> max k (p + 1)" "max k (p + 1) \<le> int (length ms3)"
      by (elim exE conjE) blast
    from Cons.IH[OF s(2) s(3) s(1) Cons.prems(4,5,6,7)] show ?thesis .
  qed
qed

lemma insert_circuit_success:
  "insert_circuit dev ms idx t strategy = (Inr kf, msf) \<Longrightarrow>
     insert_loop dev (flatten_to_ops_or_moments (transform_op_tree dev t)) strategy
       (insertion_cursor ms idx) ms = (Inr kf, msf)"
  by (simp add: insert_circuit_def Let_def split: if_splits)

lemma batch_insert_loop_success_step:
  assumes "batch_insert_loop dev ((i, g) # groups) shift ms = (Inr u, msf)"
  shows "\<exists>kf ms1 shift1.
           insert_circuit dev ms (i + shift) (Tree (rev g)) EARLIEST = (Inr kf, ms1) \<and>
           batch_insert_loop dev groups shift1 ms1 = (Inr u, msf)"
proof (cases "insert_circuit dev ms (i + shift) (Tree (rev g)) EARLIEST")
  case (Pair r ms1)
  with assms obtain kf where "r = Inr kf" by (cases r) (auto simp: Let_def)
  with Pair assms show ?thesis by (auto simp: Let_def split: if_splits)
qed

lemma batch_insert_loop_keeps_order:
  "batch_insert_loop dev groups shift ms = (Inr u, msf) \<Longrightarrow> ordered_in ms a b \<Longrightarrow>
     ordered_in msf a b"
proof (induction groups arbitrary: shift ms)
  case Nil
  then show ?case by simp
next
  case (Cons h groups)
  obtain i g where h: "h = (i, g)" by (cases h)
  from batch_insert_loop_success_step[OF Cons.prems(1)[unfolded h]]
  obtain kf ms1 shift1 where s:
    "insert_circuit dev ms (i + shift) (Tree (rev g)) EARLIEST = (Inr kf, ms1)"
    "batch_insert_loop dev groups shift1 ms1 = (Inr u, msf)" by blast
  from insert_loop_keeps_order[OF _ _ insert_circuit_success[OF s(1)] Cons.prems(2)]
    insertion_cursor_bounds[of ms "i + shift"]
  have "ordered_in ms1 a b" by blast
  from Cons.IH[OF s(2) this] show ?case .
qed

lemma tree_ops_member:
  "a \<in> set (tree_ops dev t) \<Longrightarrow>
     \<exists>x \<in> set (flatten_to_ops_or_moments (transform_op_tree dev t)). a \<in> set (item_ops x)"
  by (auto simp: tree_ops_def flatten_to_ops_def)

lemma batch_insert_loop_orders:
  "(i, g) \<in> set groups \<Longrightarrow> g = g1 @ tb # g2 @ ta # g3 \<Longrightarrow>
   a \<in> set (tree_ops dev ta) \<Longrightarrow> b \<in> set (tree_ops dev tb) \<Longrightarrow> shares_qubit a b \<Longrightarrow>
   batch_insert_loop dev groups shift ms = (Inr u, msf) \<Longrightarrow> ordered_in msf a b"
proof (induction groups arbitrary: shift ms)
  case Nil
  then show ?case by simp
next
  case (Cons h groups)
  obtain i' g' where h: "h = (i', g')" by (cases h)
  from batch_insert_loop_success_step[OF Cons.prems(6)[unfolded h]]
  obtain kf ms1 shift1 where s:
    "insert_circuit dev ms (i' + shift) (Tree (rev g')) EARLIEST = (Inr kf, ms1)"
    "batch_insert_loop dev groups shift1 ms1 = (Inr u, msf)" by blast
  show ?case
  proof (cases "h = (i, g)")
    case False
    with Cons.prems(1) have "(i, g) \<in> set groups" by simp
    from Cons.IH[OF this Cons.prems(2,3,4,5) s(2)] show ?thesis .
  next
    case True
    with h have g': "g' = g" by simp
    let ?f = "\<lambda>t. flatten_to_ops_or_moments (transform_op_tree dev t)"
    from tree_ops_member[OF Cons.prems(3)] obtain x where x: "x \<in> set (?f ta)" "a \<in> set (item_ops x)"
      by blast
    from tree_ops_member[OF Cons.prems(4)] obtain y where y: "y \<in> set (?f tb)" "b \<in> set (item_ops y)"
      by blast
    from split_list[OF x(1)] obtain xs1 xs2 where fx: "?f ta = xs1 @ x # xs2" by blast
    define pre where "pre = concat (map ?f (rev g3)) @ xs1"
    define rest where "rest = xs2 @ concat (map ?f (rev g2)) @ ?f tb @ concat (map ?f (rev g1))"
    have items: "?f (Tree (rev g')) = pre @ x # rest"
      by (simp add: g' Cons.prems(2) pre_def rest_def fx rev_map comp_def)
    have yr: "y \<in> set rest" using y(1) by (simp add: rest_def)
    from insert_circuit_success[OF s(1)] items
    have run: "insert_loop dev (pre @ x # rest) EARLIEST (insertion_cursor ms (i' + shift)) ms
                 = (Inr kf, ms1)" by simp
    from insert_loop_orders[OF _ _ run x(2) yr y(2) Cons.prems(5)]
      insertion_cursor_bounds[of ms "i' + shift"]
    have "ordered_in ms1 a b" by blast
    from batch_insert_loop_keeps_order[OF s(2) this] show ?thesis .
  qed
qed

lemma filter_keeps_two:
  assumes "j1 < j2" "j2 < length xs" "P (xs ! j1)" "P (xs ! j2)"
  shows "\<exists>g1 g2 g3. filter P xs = g1 @ xs ! j1 # g2 @ xs ! j2 # g3"
proof -
  let ?ys = "drop (Suc j1) xs"
  let ?n = "j2 - Suc j1"
  have a: "xs = take j1 xs @ xs ! j1 # ?ys"
    using assms(1,2) by (simp add: id_take_nth_drop)
  have n: "?n < length ?ys" "?ys ! ?n = xs ! j2" using assms(1,2) by auto
  have b: "?ys = take ?n ?ys @ xs ! j2 # drop (Suc ?n) ?ys"
    using id_take_nth_drop[OF n(1)] n(2) by simp
  have "filter P xs = filter P (take j1 xs) @ xs ! j1
          # filter P (take ?n ?ys) @ xs ! j2 # filter P (drop (Suc ?n) ?ys)"
    by (subst a, subst b) (simp add: assms(3,4))
  then show ?thesis by blast
qed

lemma batch_insert_orders:
  assumes ok: "\<not> raised (batch_insert st self insertions)"
    and j: "j1 < j2" "j2 < length insertions" "fst (insertions ! j1) = fst (insertions ! j2)"
    and a: "a \<in> set (tree_ops (circuit_device self) (snd (insertions ! j2)))"
    and b: "b \<in> set (tree_ops (circuit_device self) (snd (insertions ! j1)))"
    and sh: "shares_qubit a b"
  shows "ordered_in (moments_after (batch_insert st self insertions)) a b"
proof -
  define groups where "groups = group_until_different (sort_key fst insertions) fst snd"
  define i where "i = fst (insertions ! j2)"
  define g where "g = map snd (filter (\<lambda>e. fst e = i) insertions)"
  obtain cp st1 where c: "copy st self = (cp, st1)" by (cases "copy st self")
  then have dev: "circuit_device cp = circuit_device self" by (auto simp: copy_def)
  define res where "res = batch_insert_loop (circuit_device cp) groups 0 (moments_of st1 cp)"
  have bi: "batch_insert st self insertions = commit st1 self cp res False"
    by (simp add: batch_insert_def c groups_def res_def Let_def)
  from ok bi obtain u where u: "fst res = Inr u"
    by (cases "fst res") (auto simp: raised_def commit_def Let_def)
  have after: "moments_after (batch_insert st self insertions) = snd res"
    using u by (simp add: bi commit_def moments_after_def moments_of_def Let_def)
  have srt: "sorted (map fst (sort_key fst insertions))" by simp
  from group_until_different_sorted[OF srt, of snd]
  have keys: "fst ` set groups = fst ` set insertions"
    and grp: "\<forall>(k, vs) \<in> set groups.
        vs \<noteq> [] \<and> vs = map snd (filter (\<lambda>y. fst y = k) (sort_key fst insertions))"
    unfolding groups_def by simp_all
  have "i \<in> fst ` set insertions" using j(2) by (auto simp: i_def)
  with keys obtain vs where vs: "(i, vs) \<in> set groups" by force
  with grp have vs': "vs = map snd (filter (\<lambda>y. fst y = i) (sort_key fst insertions))" by blast
  have stable: "filter (\<lambda>y. fst y = i) (sort_key fst insertions)
                  = filter (\<lambda>y. fst y = i) insertions"
    by (rule sort_key_stable)
  from vs'[unfolded stable] have "vs = g" unfolding g_def .
  with vs have mem: "(i, g) \<in> set groups" by simp
  have p1: "fst (insertions ! j1) = i" and p2: "fst (insertions ! j2) = i"
    using j(3) by (simp_all add: i_def)
  from filter_keeps_two[OF j(1,2), of "\<lambda>e. fst e = i", OF p1 p2]
  obtain f1 f2 f3 where "filter (\<lambda>e. fst e = i) insertions
        = f1 @ insertions ! j1 # f2 @ insertions ! j2 # f3"
    by blast
  then have gsplit: "g = map snd f1 @ snd (insertions ! j1) # map snd f2
                         @ snd (insertions ! j2) # map snd f3"
    by (simp add: g_def)
  have run: "batch_insert_loop (circuit_device cp) groups 0 (moments_of st1 cp) = (Inr u, snd res)"
    using u by (simp add: res_def prod_eq_iff)
  from batch_insert_loop_orders[OF mem gsplit _ _ sh run] a b dev
  have "ordered_in (snd res) a b" by simp
  with after show ?thesis by simp
qed

text \<open>
  C2, amended: the insertions are sorted stably by target index and grouped by it, so the
  groups are processed in strictly ascending index order and each group holds the
  operation trees of its index in input order; the group is handed to \<open>insert\<close> in
  reverse input order with the strategy EARLIEST, at its index plus a shift that starts
  at 0 and never decreases from one group to the next. When the call succeeds, an
  operation of a later-specified insertion ends up in an earlier moment than every
  operation of an earlier-specified insertion of the same index with which it shares a
  qubit. The amount of the shift, and the order of operations that share no qubit, are
  left open.
\<close>

theorem batch_insert_groups:
  fixes insertions :: "(int \<times> op_tree) list"
  assumes "groups = group_until_different (sort_key fst insertions) fst snd"
  shows "batch_insert st self insertions =
           (let (cp, st1) = copy st self
            in commit st1 self cp
                 (batch_insert_loop (circuit_device cp) groups 0 (moments_of st1 cp)) False) \<and>
         sorted (map fst groups) \<and> distinct (map fst groups) \<and>
         fst ` set groups = fst ` set insertions \<and>
         (\<forall>(i, g) \<in> set groups.
            g \<noteq> [] \<and> g = map snd (filter (\<lambda>e. fst e = i) insertions) \<and>
            flatten_to_ops_or_moments (Tree (rev g))
              = concat (rev (map flatten_to_ops_or_moments g))) \<and>
         (\<forall>dev i g rest shift ms. \<exists>shift1 \<ge> shift.
            batch_insert_loop dev ((i, g) # rest) shift ms =
              (case insert_circuit dev ms (i + shift) (Tree (rev g)) EARLIEST of
                 (Inl e, ms1) \<Rightarrow> (Inl e, ms1)
               | (Inr next_index, ms1) \<Rightarrow> batch_insert_loop dev rest shift1 ms1)) \<and>
         (\<forall>j1 j2 a b.
            \<not> raised (batch_insert st self insertions) \<and>
            j1 < j2 \<and> j2 < length insertions \<and> fst (insertions ! j1) = fst (insertions ! j2) \<and>
            a \<in> set (tree_ops (circuit_device self) (snd (insertions ! j2))) \<and>
            b \<in> set (tree_ops (circuit_device self) (snd (insertions ! j1))) \<and>
            shares_qubit a b
            \<longrightarrow> ordered_in (moments_after (batch_insert st self insertions)) a b)"
proof -
  have srt: "sorted (map fst (sort_key fst insertions))" by simp
  from group_until_different_sorted[OF srt, of snd]
  have g: "sorted (map fst groups)" "distinct (map fst groups)"
    "fst ` set groups = fst ` set insertions"
    "\<forall>(k, vs) \<in> set groups. vs \<noteq> [] \<and>
        vs = map snd (filter (\<lambda>y. fst y = k) (sort_key fst insertions))"
    unfolding assms by simp_all
  have stable: "\<forall>(i, g) \<in> set groups.
            g \<noteq> [] \<and> g = map snd (filter (\<lambda>e. fst e = i) insertions) \<and>
            flatten_to_ops_or_moments (Tree (rev g))
              = concat (rev (map flatten_to_ops_or_moments g))"
    using g(4) by (auto simp: sort_key_stable rev_map)
  have def: "batch_insert st self insertions =
           (let (cp, st1) = copy st self
            in commit st1 self cp
                 (batch_insert_loop (circuit_device cp) groups 0 (moments_of st1 cp)) False)"
    by (simp add: batch_insert_def assms Let_def)
  have order: "\<forall>j1 j2 a b.
            \<not> raised (batch_insert st self insertions) \<and>
            j1 < j2 \<and> j2 < length insertions \<and> fst (insertions ! j1) = fst (insertions ! j2) \<and>
            a \<in> set (tree_ops (circuit_device self) (snd (insertions ! j2))) \<and>
            b \<in> set (tree_ops (circuit_device self) (snd (insertions ! j1))) \<and>
            shares_qubit a b
            \<longrightarrow> ordered_in (moments_after (batch_insert st self insertions)) a b"
  proof (intro allI impI, elim conjE)
    fix j1 j2 a b
    assume "\<not> raised (batch_insert st self insertions)" "j1 < j2" "j2 < length insertions"
      "fst (insertions ! j1) = fst (insertions ! j2)"
      "a \<in> set (tree_ops (circuit_device self) (snd (insertions ! j2)))"
      "b \<in> set (tree_ops (circuit_device self) (snd (insertions ! j1)))"
      "shares_qubit a b"
    then show "ordered_in (moments_after (batch_insert st self insertions)) a b"
      by (rule batch_insert_orders)
  qed
  show ?thesis
  proof (intro conjI)
    show "\<forall>dev i g rest shift ms. \<exists>shift1 \<ge> shift.
            batch_insert_loop dev ((i, g) # rest) shift ms =
              (case insert_circuit dev ms (i + shift) (Tree (rev g)) EARLIEST of
                 (Inl e, ms1) \<Rightarrow> (Inl e, ms1)
               | (Inr next_index, ms1) \<Rightarrow> batch_insert_loop dev rest shift1 ms1)"
      using batch_insert_loop_step by (intro allI)
  qed (fact def g(1) g(2) g(3) stable order)+
qed

theorem batch_insert_groups_witness:
  "group_until_different
      (sort_key fst [(4::int, Leaf (Op Y_r)), (2, Leaf (Op X_q)), (4, Leaf (Op Z_r))]) fst snd
     = [(2, [Leaf (Op X_q)]), (4, [Leaf (Op Y_r), Leaf (Op Z_r)])] \<and>
   sorted (map fst [(2::int, [Leaf (Op X_q)]), (4, [Leaf (Op Y_r), Leaf (Op Z_r)])]) \<and>
   distinct (map fst [(2::int, [Leaf (Op X_q)]), (4, [Leaf (Op Y_r), Leaf (Op Z_r)])]) \<and>
   flatten_to_ops_or_moments (Tree (rev [Leaf (Op Y_r), Leaf (Op Z_r)])) = [Op Z_r, Op Y_r] \<and>
   \<not> raised (batch_insert (store_of drift_circuit) self0
          [(4, Leaf (Op Y_r)), (2, Leaf (Op X_q)), (4, Leaf (Op Z_r))]) \<and>
   shares_qubit Z_r Y_r \<and>
   moments_after (batch_insert (store_of drift_circuit) self0
       [(4, Leaf (Op Y_r)), (2, Leaf (Op X_q)), (4, Leaf (Op Z_r))])
     = [[], [X_q], [X_q], [], [Z_r], [Z_r], [Y_r]] \<and>
   ordered_in (moments_after (batch_insert (store_of drift_circuit) self0
       [(4, Leaf (Op Y_r)), (2, Leaf (Op X_q)), (4, Leaf (Op Z_r))])) Z_r Y_r"
proof -
  let ?ins = "[(4::int, Leaf (Op Y_r)), (2, Leaf (Op X_q)), (4, Leaf (Op Z_r))]"
  have h: "group_until_different (sort_key fst ?ins) fst snd
     = [(2, [Leaf (Op X_q)]), (4, [Leaf (Op Y_r), Leaf (Op Z_r)])]"
    by code_simp
  note inst = batch_insert_groups[OF h[symmetric], of "store_of drift_circuit" self0]
  from inst
  have a: "sorted (map fst [(2::int, [Leaf (Op X_q)]), (4, [Leaf (Op Y_r), Leaf (Op Z_r)])])"
    and b: "distinct (map fst [(2::int, [Leaf (Op X_q)]), (4, [Leaf (Op Y_r), Leaf (Op Z_r)])])"
    by blast+
  have c: "flatten_to_ops_or_moments (Tree (rev [Leaf (Op Y_r), Leaf (Op Z_r)])) = [Op Z_r, Op Y_r]"
    by simp
  have ok: "\<not> raised (batch_insert (store_of drift_circuit) self0 ?ins)"
    by code_simp
  have sh: "shares_qubit Z_r Y_r" by code_simp
  have res: "moments_after (batch_insert (store_of drift_circuit) self0 ?ins)
     = [[], [X_q], [X_q], [], [Z_r], [Z_r], [Y_r]]"
    by code_simp
  have mem: "Z_r \<in> set (tree_ops (circuit_device self0) (snd (?ins ! 2)))"
    "Y_r \<in> set (tree_ops (circuit_device self0) (snd (?ins ! 0)))"
    by (simp_all add: tree_ops_def flatten_to_ops_def self0_def)
  from inst have "\<forall>j1 j2 a b.
            \<not> raised (batch_insert (store_of drift_circuit) self0 ?ins) \<and>
            j1 < j2 \<and> j2 < length ?ins \<and> fst (?ins ! j1) = fst (?ins ! j2) \<and>
            a \<in> set (tree_ops (circuit_device self0) (snd (?ins ! j2))) \<and>
            b \<in> set (tree_ops (circuit_device self0) (snd (?ins ! j1))) \<and>
            shares_qubit a b
            \<longrightarrow> ordered_in (moments_after (batch_insert (store_of drift_circuit) self0 ?ins)) a b"
    by (elim conjE)
  from this[rule_format, of 0 2 Z_r Y_r] ok sh mem
  have ord: "ordered_in (moments_after (batch_insert (store_of drift_circuit) self0 ?ins)) Z_r Y_r"
    by simp
  from h a b c ok sh res ord show ?thesis by (intro conjI)
qed

end
